theory Spec2Isabelle
  imports Complex_Main
begin

section \<open>The pygame interface used by neurotic.py\<close>

text \<open>
  \<^verbatim>\<open>pygame.Rect\<close> holds four integers. \<^verbatim>\<open>collidepoint\<close> is true for points inside the
  rectangle, the right and bottom edges excluded; a rectangle is truthy when neither its
  width nor its height is zero. Screen positions are pairs of integers.
\<close>

type_synonym pos = "int \<times> int"

record Rect =
  rect_x :: int
  rect_y :: int
  rect_width :: int
  rect_height :: int

definition mk_Rect :: "int \<Rightarrow> int \<Rightarrow> int \<Rightarrow> int \<Rightarrow> Rect" where
  "mk_Rect a b c d = \<lparr>rect_x = a, rect_y = b, rect_width = c, rect_height = d\<rparr>"

definition collidepoint :: "Rect \<Rightarrow> pos \<Rightarrow> bool" where
  "collidepoint r p \<longleftrightarrow>
     rect_x r \<le> fst p \<and> fst p < rect_x r + rect_width r \<and>
     rect_y r \<le> snd p \<and> snd p < rect_y r + rect_height r"

definition rect_truthy :: "Rect \<Rightarrow> bool" where
  "rect_truthy r \<longleftrightarrow> rect_width r \<noteq> 0 \<and> rect_height r \<noteq> 0"

definition rect_right :: "Rect \<Rightarrow> int" where
  "rect_right r = rect_x r + rect_width r"

definition rect_centery :: "Rect \<Rightarrow> int" where
  "rect_centery r = rect_y r + rect_height r div 2"

definition set_topright :: "Rect \<Rightarrow> pos \<Rightarrow> Rect" where
  "set_topright r p = r\<lparr>rect_x := fst p - rect_width r, rect_y := snd p\<rparr>"

definition set_topleft :: "Rect \<Rightarrow> pos \<Rightarrow> Rect" where
  "set_topleft r p = r\<lparr>rect_x := fst p, rect_y := snd p\<rparr>"

text \<open>
  The pointer events of the loop. A button is pygame's button number (1 is the left
  button, 3 the right one). \<open>OTHER\<close> stands for every event type the handlers do not
  test for.
\<close>

datatype event =
    MOUSEBUTTONDOWN pos int
  | MOUSEBUTTONUP pos int
  | MOUSEMOTION pos
  | QUIT
  | OTHER

datatype py_error = ValueError | IndexError | ZeroDivisionError | AttributeError

text \<open>\<^verbatim>\<open>int(x)\<close> on a float truncates towards zero. Floats are modelled as reals.\<close>

definition py_int :: "real \<Rightarrow> int" where
  "py_int v = (if 0 \<le> v then \<lfloor>v\<rfloor> else \<lceil>v\<rceil>)"

text \<open>\<^verbatim>\<open>sum(...)\<close> adds from the left, starting at 0.\<close>

definition py_sum :: "real list \<Rightarrow> real" where
  "py_sum vs = foldl (+) 0 vs"

section \<open>The scene objects\<close>

text \<open>
  Objects are compared by identity in the source (\<^verbatim>\<open>conn['target_obj'] == self\<close>). An
  object reference is its index in \<^verbatim>\<open>all_objects\<close>, which holds every object of the scene
  and is never resized. The colour attribute and the radii and sizes that are assigned
  once in a constructor and never again are not stored.
\<close>

record DraggableObject =
  rect :: Rect
  is_dragging :: bool
  drag_offset_x :: int
  drag_offset_y :: int

record perceptron = DraggableObject +
  num_inputs :: int
  weights :: "real list"
  bias :: real
  output_value :: int
  input_values :: "int list"
  input_connections :: "nat option list"
  plus_button_rect :: Rect
  minus_button_rect :: Rect
  input_nodes_pos :: "pos list"
  output_node_pos :: pos
  input_node_rects :: "Rect list"
  output_node_rect :: Rect

record switch = DraggableObject +
  output_value :: int
  toggle_rect :: Rect
  output_node_pos :: pos
  output_node_rect :: Rect

record light = DraggableObject +
  input_value :: int
  num_inputs :: int
  input_connections :: "nat option list"
  input_nodes_pos :: "pos list"
  input_node_rects :: "Rect list"

datatype entity = Switch switch | Perceptron perceptron | Light light

record conn =
  source_obj :: nat
  target_obj :: nat
  target_input_idx :: nat

record gstate =
  is_drawing_connection :: bool
  connection_start_obj :: "nat option"
  connection_start_pos :: "pos option"

record scene =
  all_objects :: "entity list"
  connections :: "conn list"
  global_connection_state :: gstate
  running :: bool

definition input_node_radius :: int where "input_node_radius = 5"
definition output_node_radius :: int where "output_node_radius = 6"
definition button_size :: int where "button_size = 15"
definition button_margin :: int where "button_margin = 3"
definition toggle_margin :: int where "toggle_margin = 8"
definition max_inputs :: int where "max_inputs = 8"
definition min_inputs :: int where "min_inputs = 1"

definition step_function :: "real \<Rightarrow> int" where
  "step_function v = (if v \<ge> 0 then 1 else 0)"

definition node_rect :: "int \<Rightarrow> pos \<Rightarrow> Rect" where
  "node_rect radius p = mk_Rect (fst p - radius) (snd p - radius) (radius * 2) (radius * 2)"

subsection \<open>Perceptron\<close>

text \<open>
  \<^verbatim>\<open>Perceptron._update_node_positions\<close>. The division raises for \<^verbatim>\<open>num_inputs == -1\<close>.
\<close>

definition perceptron_update_node_positions :: "perceptron \<Rightarrow> py_error + perceptron" where
  "perceptron_update_node_positions p =
     (if perceptron.num_inputs p + 1 = 0 then Inl ZeroDivisionError
      else
        let r = rect p;
            input_spacing = real_of_int (rect_height r) / real_of_int (perceptron.num_inputs p + 1);
            nodes = map (\<lambda>i. (rect_x r - input_node_radius,
                               rect_y r + py_int (input_spacing * real_of_int (int i + 1))))
                        [0 ..< nat (perceptron.num_inputs p)];
            out = (rect_right r + output_node_radius, rect_centery r);
            plus = set_topright (plus_button_rect p)
                     (rect_right r - button_margin, rect_y r + button_margin);
            minus = set_topright (minus_button_rect p)
                     (rect_x plus - button_margin, rect_y r + button_margin)
        in Inr (p\<lparr>perceptron.input_nodes_pos := nodes,
                  perceptron.output_node_pos := out,
                  perceptron.input_node_rects := map (node_rect input_node_radius) nodes,
                  perceptron.output_node_rect := node_rect output_node_radius out,
                  plus_button_rect := plus,
                  minus_button_rect := minus\<rparr>))"

text \<open>
  \<^verbatim>\<open>Perceptron.__init__(x, y, num_inputs, weights, bias)\<close>. The argument \<open>rnd\<close> is the
  sequence of values that \<^verbatim>\<open>random.uniform(-1, 1)\<close> returns, in the order of the calls.
\<close>

definition Perceptron_init ::
  "(nat \<Rightarrow> real) \<Rightarrow> int \<Rightarrow> int \<Rightarrow> int \<Rightarrow> real list option \<Rightarrow> real option \<Rightarrow> py_error + perceptron" where
  "Perceptron_init rnd x y n ws b =
     (let n' = max 1 n in
      case (case ws of
              None \<Rightarrow> Inr (map rnd [0 ..< nat n'], nat n')
            | Some given \<Rightarrow>
                if int (length given) = n' then Inr (given, 0) else Inl ValueError) of
        Inl e \<Rightarrow> Inl e
      | Inr (ws', used) \<Rightarrow>
          perceptron_update_node_positions
            \<lparr>rect = mk_Rect x y 60 80, is_dragging = False, drag_offset_x = 0, drag_offset_y = 0,
             perceptron.num_inputs = n',
             weights = ws',
             bias = (case b of None \<Rightarrow> rnd used | Some v \<Rightarrow> v),
             perceptron.output_value = 0,
             input_values = replicate (nat n') 0,
             perceptron.input_connections = replicate (nat n') None,
             plus_button_rect = mk_Rect 0 0 button_size button_size,
             minus_button_rect = mk_Rect 0 0 button_size button_size,
             perceptron.input_nodes_pos = [],
             perceptron.output_node_pos = (0, 0),
             perceptron.input_node_rects = [],
             perceptron.output_node_rect = mk_Rect 0 0 0 0\<rparr>)"

text \<open>
  \<^verbatim>\<open>getattr(source_obj, 'output_value', 0)\<close>: a Light has no such attribute. A source is
  read through the object list; a reference outside the list cannot exist in Python and
  reads as 0 here.
\<close>

fun get_output_value :: "entity \<Rightarrow> int" where
  "get_output_value (Switch s) = switch.output_value s"
| "get_output_value (Perceptron p) = perceptron.output_value p"
| "get_output_value (Light l) = 0"

definition source_output_value :: "entity list \<Rightarrow> nat \<Rightarrow> int" where
  "source_output_value objs i = (if i < length objs then get_output_value (objs ! i) else 0)"

definition read_slot :: "entity list \<Rightarrow> nat option list \<Rightarrow> nat \<Rightarrow> int" where
  "read_slot objs slots i =
     (if i < length slots
      then (case slots ! i of Some src \<Rightarrow> source_output_value objs src | None \<Rightarrow> 0)
      else 0)"

text \<open>\<^verbatim>\<open>Perceptron.calculate_output\<close>, reading the sources from the object list.\<close>

definition calculate_output :: "entity list \<Rightarrow> perceptron \<Rightarrow> perceptron" where
  "calculate_output objs p =
     (let current_inputs = map (read_slot objs (perceptron.input_connections p))
                               [0 ..< nat (perceptron.num_inputs p)];
          ws = (if length (weights p) \<noteq> length current_inputs
                then take (length current_inputs) (weights p)
                       @ replicate (length current_inputs - length (weights p)) 0
                else weights p);
          weighted_sum = py_sum (map (\<lambda>(w, i). w * real_of_int i) (zip ws current_inputs))
                           + bias p
      in p\<lparr>input_values := current_inputs, weights := ws,
            perceptron.output_value := step_function weighted_sum\<rparr>)"

text \<open>
  The branch of \<^verbatim>\<open>Perceptron.handle_event\<close> for a left click on the '+' button; \<open>r\<close> is
  the freshly sampled weight. The handler returns True on both paths.
\<close>

definition increment_inputs :: "real \<Rightarrow> perceptron \<Rightarrow> py_error + perceptron" where
  "increment_inputs r p =
     (if perceptron.num_inputs p < max_inputs
      then perceptron_update_node_positions
             (p\<lparr>perceptron.num_inputs := perceptron.num_inputs p + 1,
                weights := weights p @ [r],
                perceptron.input_connections := perceptron.input_connections p @ [None],
                input_values := input_values p @ [0]\<rparr>)
      else Inr p)"

text \<open>
  The loop \<^verbatim>\<open>for idx in range(len(connections) - 1, -1, -1)\<close> that pops the first entry,
  seen from the end, whose target is \<open>(t, i)\<close>. The first argument counts the indices
  still to visit.
\<close>

definition conn_matches :: "nat \<Rightarrow> nat \<Rightarrow> conn \<Rightarrow> bool" where
  "conn_matches t i c \<longleftrightarrow> target_obj c = t \<and> target_input_idx c = i"

fun remove_connection_from :: "nat \<Rightarrow> nat \<Rightarrow> nat \<Rightarrow> conn list \<Rightarrow> conn list" where
  "remove_connection_from 0 t i conns = conns"
| "remove_connection_from (Suc idx) t i conns =
     (if conn_matches t i (conns ! idx)
      then take idx conns @ drop (Suc idx) conns
      else remove_connection_from idx t i conns)"

definition remove_connection :: "nat \<Rightarrow> nat \<Rightarrow> conn list \<Rightarrow> conn list" where
  "remove_connection t i conns = remove_connection_from (length conns) t i conns"

text \<open>
  The branch of \<^verbatim>\<open>Perceptron.handle_event\<close> for a left click on the '-' button; \<open>self\<close> is
  the perceptron's own reference. \<^verbatim>\<open>list.pop()\<close> raises on an empty list.
\<close>

definition decrement_inputs ::
  "nat \<Rightarrow> perceptron \<Rightarrow> conn list \<Rightarrow> py_error + (perceptron \<times> conn list)" where
  "decrement_inputs self p conns =
     (if perceptron.num_inputs p > min_inputs
      then
        if weights p = [] \<or> perceptron.input_connections p = [] \<or> input_values p = []
        then Inl IndexError
        else
          let removed_connection_source = last (perceptron.input_connections p);
              p' = p\<lparr>perceptron.num_inputs := perceptron.num_inputs p - 1,
                     weights := butlast (weights p),
                     perceptron.input_connections := butlast (perceptron.input_connections p),
                     input_values := butlast (input_values p)\<rparr>;
              conns' = (if removed_connection_source \<noteq> None
                        then remove_connection self (nat (perceptron.num_inputs p')) conns
                        else conns)
          in (case perceptron_update_node_positions p' of
                Inl e \<Rightarrow> Inl e
              | Inr p'' \<Rightarrow> Inr (p'', conns'))
      else Inr (p, conns))"

text \<open>\<^verbatim>\<open>Perceptron.get_input_node_rect(index)\<close>, for an index that is not negative.\<close>

definition perceptron_get_input_node_rect :: "perceptron \<Rightarrow> nat \<Rightarrow> Rect option" where
  "perceptron_get_input_node_rect p index =
     (if index < length (perceptron.input_node_rects p)
      then Some (perceptron.input_node_rects p ! index) else None)"

text \<open>
  \<^verbatim>\<open>for i, rect in enumerate(rects): if rect.collidepoint(pos): ...\<close> where the body
  always returns: the index of the first rectangle that holds the position.
\<close>

fun first_hit :: "Rect list \<Rightarrow> pos \<Rightarrow> nat option" where
  "first_hit [] p = None"
| "first_hit (r # rs) p = (if collidepoint r p then Some 0 else map_option Suc (first_hit rs p))"

type_synonym 'a handled = "py_error + (bool \<times> 'a \<times> gstate \<times> conn list)"

text \<open>The right-click branch of \<^verbatim>\<open>Perceptron.handle_event\<close> (button 3).\<close>

definition perceptron_right_click ::
  "nat \<Rightarrow> pos \<Rightarrow> perceptron \<Rightarrow> gstate \<Rightarrow> conn list \<Rightarrow> perceptron handled" where
  "perceptron_right_click self p0 p g conns =
     (case first_hit (perceptron.input_node_rects p) p0 of
        Some i \<Rightarrow>
          if i \<ge> length (perceptron.input_connections p) then Inl IndexError
          else if perceptron.input_connections p ! i \<noteq> None
          then Inr (True,
                    p\<lparr>perceptron.input_connections := (perceptron.input_connections p)[i := None]\<rparr>,
                    g, remove_connection self i conns)
          else Inr (True, p, g, conns)
      | None \<Rightarrow> Inr (False, p, g, conns))"

text \<open>The left-click branch of \<^verbatim>\<open>Perceptron.handle_event\<close> below the button checks.\<close>

definition perceptron_left_click ::
  "nat \<Rightarrow> pos \<Rightarrow> perceptron \<Rightarrow> gstate \<Rightarrow> conn list \<Rightarrow> perceptron handled" where
  "perceptron_left_click self p0 p g conns =
     (if collidepoint (perceptron.output_node_rect p) p0
      then Inr (True, p,
                g\<lparr>is_drawing_connection := True,
                  connection_start_obj := Some self,
                  connection_start_pos := Some (perceptron.output_node_pos p)\<rparr>, conns)
      else if \<not> is_drawing_connection g \<and> first_hit (perceptron.input_node_rects p) p0 \<noteq> None
      then Inr (True, p, g, conns)
      else if collidepoint (rect p) p0
      then Inr (True,
                p\<lparr>is_dragging := True,
                  drag_offset_x := rect_x (rect p) - fst p0,
                  drag_offset_y := rect_y (rect p) - snd p0\<rparr>, g, conns)
      else Inr (False, p, g, conns))"

text \<open>
  \<^verbatim>\<open>Perceptron.handle_event(event, global_state, connections)\<close>; \<open>r\<close> is the value the
  next call of \<^verbatim>\<open>random.uniform(-1, 1)\<close> returns.
\<close>

definition perceptron_handle_event ::
  "real \<Rightarrow> nat \<Rightarrow> event \<Rightarrow> perceptron \<Rightarrow> gstate \<Rightarrow> conn list \<Rightarrow> perceptron handled" where
  "perceptron_handle_event r self ev p g conns =
     (case ev of
        MOUSEBUTTONDOWN p0 b \<Rightarrow>
          if b = 1 \<and> collidepoint (plus_button_rect p) p0
          then (case increment_inputs r p of
                  Inl e \<Rightarrow> Inl e
                | Inr p' \<Rightarrow> Inr (True, p', g, conns))
          else if b = 1 \<and> collidepoint (minus_button_rect p) p0
          then (case decrement_inputs self p conns of
                  Inl e \<Rightarrow> Inl e
                | Inr (p', conns') \<Rightarrow> Inr (True, p', g, conns'))
          else if b = 3 then perceptron_right_click self p0 p g conns
          else if b = 1 then perceptron_left_click self p0 p g conns
          else Inr (False, p, g, conns)
      | MOUSEBUTTONUP p0 b \<Rightarrow>
          if is_dragging p \<and> b = 1
          then Inr (True, p\<lparr>is_dragging := False\<rparr>, g, conns)
          else Inr (False, p, g, conns)
      | MOUSEMOTION p0 \<Rightarrow>
          if is_dragging p
          then (case perceptron_update_node_positions
                       (p\<lparr>rect := (rect p)\<lparr>rect_x := fst p0 + drag_offset_x p,
                                              rect_y := snd p0 + drag_offset_y p\<rparr>\<rparr>) of
                  Inl e \<Rightarrow> Inl e
                | Inr p' \<Rightarrow> Inr (True, p', g, conns))
          else Inr (False, p, g, conns)
      | _ \<Rightarrow> Inr (False, p, g, conns))"

subsection \<open>Switch\<close>

definition switch_update_node_positions :: "switch \<Rightarrow> switch" where
  "switch_update_node_positions s =
     (let r = rect s;
          out = (rect_right r + output_node_radius, rect_centery r)
      in s\<lparr>switch.output_node_pos := out,
            switch.output_node_rect := node_rect output_node_radius out,
            toggle_rect := set_topleft (toggle_rect s)
                             (rect_x r + toggle_margin, rect_y r + toggle_margin)\<rparr>)"

definition Switch_init :: "int \<Rightarrow> int \<Rightarrow> switch" where
  "Switch_init x y =
     switch_update_node_positions
       \<lparr>rect = mk_Rect x y 40 40, is_dragging = False, drag_offset_x = 0, drag_offset_y = 0,
        switch.output_value = 0,
        toggle_rect = mk_Rect (x + toggle_margin) (y + toggle_margin)
                        (40 - 2 * toggle_margin) (40 - 2 * toggle_margin),
        switch.output_node_pos = (0, 0),
        switch.output_node_rect = mk_Rect 0 0 0 0\<rparr>"

text \<open>\<^verbatim>\<open>Switch.handle_event(event, global_state, connections)\<close>.\<close>

definition switch_handle_event ::
  "nat \<Rightarrow> event \<Rightarrow> switch \<Rightarrow> gstate \<Rightarrow> conn list \<Rightarrow> switch handled" where
  "switch_handle_event self ev s g conns =
     (case ev of
        MOUSEBUTTONDOWN p0 b \<Rightarrow>
          if collidepoint (switch.output_node_rect s) p0
          then (if b = 1
                then Inr (True, s,
                          g\<lparr>is_drawing_connection := True,
                            connection_start_obj := Some self,
                            connection_start_pos := Some (switch.output_node_pos s)\<rparr>, conns)
                else Inr (False, s, g, conns))
          else if b = 1
          then (if collidepoint (toggle_rect s) p0
                then (if \<not> is_drawing_connection g
                      then Inr (True, s\<lparr>switch.output_value := 1 - switch.output_value s\<rparr>,
                                g, conns)
                      else Inr (False, s, g, conns))
                else if collidepoint (rect s) p0
                then Inr (True,
                          s\<lparr>is_dragging := True,
                            drag_offset_x := rect_x (rect s) - fst p0,
                            drag_offset_y := rect_y (rect s) - snd p0\<rparr>, g, conns)
                else Inr (False, s, g, conns))
          else if b = 3
          then Inr (collidepoint (rect s) p0, s, g, conns)
          else Inr (False, s, g, conns)
      | MOUSEBUTTONUP p0 b \<Rightarrow>
          if b = 1 \<and> is_dragging s
          then Inr (True, s\<lparr>is_dragging := False\<rparr>, g, conns)
          else Inr (False, s, g, conns)
      | MOUSEMOTION p0 \<Rightarrow>
          if is_dragging s
          then Inr (True,
                    switch_update_node_positions
                      (s\<lparr>rect := (rect s)\<lparr>rect_x := fst p0 + drag_offset_x s,
                                             rect_y := snd p0 + drag_offset_y s\<rparr>\<rparr>), g, conns)
          else Inr (False, s, g, conns)
      | _ \<Rightarrow> Inr (False, s, g, conns))"

subsection \<open>Light\<close>

definition light_update_node_positions :: "light \<Rightarrow> light" where
  "light_update_node_positions l =
     (let nodes = [(rect_x (rect l) - input_node_radius, rect_centery (rect l))]
      in l\<lparr>light.input_nodes_pos := nodes,
            light.input_node_rects := map (node_rect input_node_radius) nodes\<rparr>)"

definition Light_init :: "int \<Rightarrow> int \<Rightarrow> light" where
  "Light_init x y =
     light_update_node_positions
       \<lparr>rect = mk_Rect (x - 20) (y - 20) (20 * 2) (20 * 2),
        is_dragging = False, drag_offset_x = 0, drag_offset_y = 0,
        input_value = 0,
        light.num_inputs = 1,
        light.input_connections = replicate 1 None,
        light.input_nodes_pos = [],
        light.input_node_rects = []\<rparr>"

definition light_get_input_node_rect :: "light \<Rightarrow> nat \<Rightarrow> Rect option" where
  "light_get_input_node_rect l index =
     (if index = 0 \<and> light.input_node_rects l \<noteq> []
      then Some (light.input_node_rects l ! 0) else None)"

text \<open>
  \<^verbatim>\<open>DraggableObject.handle_event\<close>, which only the Light calls (through \<^verbatim>\<open>super()\<close>);
  \<open>upd\<close> is the \<^verbatim>\<open>_update_node_positions\<close> of the object's own class. Any button starts
  and ends the drag.
\<close>

definition DraggableObject_handle_event ::
  "('a DraggableObject_scheme \<Rightarrow> 'a DraggableObject_scheme) \<Rightarrow> event \<Rightarrow>
   'a DraggableObject_scheme \<Rightarrow> bool \<times> 'a DraggableObject_scheme" where
  "DraggableObject_handle_event upd ev d =
     (case ev of
        MOUSEBUTTONDOWN p0 b \<Rightarrow>
          if collidepoint (rect d) p0
          then (True, d\<lparr>is_dragging := True,
                        drag_offset_x := rect_x (rect d) - fst p0,
                        drag_offset_y := rect_y (rect d) - snd p0\<rparr>)
          else (False, d)
      | MOUSEBUTTONUP p0 b \<Rightarrow>
          if is_dragging d then (True, d\<lparr>is_dragging := False\<rparr>) else (False, d)
      | MOUSEMOTION p0 \<Rightarrow>
          if is_dragging d
          then (True, upd (d\<lparr>rect := (rect d)\<lparr>rect_x := fst p0 + drag_offset_x d,
                                               rect_y := snd p0 + drag_offset_y d\<rparr>\<rparr>))
          else (False, d)
      | _ \<Rightarrow> (False, d))"

text \<open>\<^verbatim>\<open>Light.handle_event(event, global_state, connections)\<close>.\<close>

definition light_node_click ::
  "nat \<Rightarrow> pos \<Rightarrow> int \<Rightarrow> light \<Rightarrow> gstate \<Rightarrow> conn list \<Rightarrow> light handled" where
  "light_node_click self p0 b l g conns =
     (if b = 3
      then (if light.input_connections l = [] then Inl IndexError
            else if light.input_connections l ! 0 \<noteq> None
            then Inr (True,
                      l\<lparr>light.input_connections := (light.input_connections l)[0 := None]\<rparr>,
                      g, remove_connection self 0 conns)
            else Inr (True, l, g, conns))
      else if b = 1
      then Inr (\<not> is_drawing_connection g, l, g, conns)
      else Inr (False, l, g, conns))"

definition light_handle_event ::
  "nat \<Rightarrow> event \<Rightarrow> light \<Rightarrow> gstate \<Rightarrow> conn list \<Rightarrow> light handled" where
  "light_handle_event self ev l g conns =
     (case DraggableObject_handle_event light_update_node_positions ev l of
        (True, l') \<Rightarrow> Inr (True, l', g, conns)
      | (False, l') \<Rightarrow>
          (case ev of
             MOUSEBUTTONDOWN p0 b \<Rightarrow>
               (case light_get_input_node_rect l' 0 of
                  Some nr \<Rightarrow>
                    if rect_truthy nr \<and> collidepoint nr p0
                    then light_node_click self p0 b l' g conns
                    else Inr (False, l', g, conns)
                | None \<Rightarrow> Inr (False, l', g, conns))
           | _ \<Rightarrow> Inr (False, l', g, conns)))"

text \<open>
  \<^verbatim>\<open>Light.update_state\<close>, reading the source from the object list.
  \<^verbatim>\<open>self.input_connections[0]\<close> raises on an empty list.
\<close>

definition update_state :: "entity list \<Rightarrow> light \<Rightarrow> py_error + light" where
  "update_state objs l =
     (if light.input_connections l = [] then Inl IndexError
      else (case light.input_connections l ! 0 of
              Some src \<Rightarrow> Inr (l\<lparr>input_value := source_output_value objs src\<rparr>)
            | None \<Rightarrow> Inr (l\<lparr>input_value := 0\<rparr>)))"

section \<open>The main loop\<close>

subsection \<open>Connection finalization\<close>

text \<open>
  The test \<^verbatim>\<open>input_rect and input_rect.collidepoint(event.pos)\<close> for input \<open>i\<close> of an
  object, with \<^verbatim>\<open>input_rect = obj.get_input_node_rect(i)\<close>.
\<close>

definition rect_hit :: "Rect option \<Rightarrow> pos \<Rightarrow> bool" where
  "rect_hit ro p0 = (case ro of None \<Rightarrow> False | Some r \<Rightarrow> rect_truthy r \<and> collidepoint r p0)"

text \<open>
  The inner loop \<^verbatim>\<open>for i in range(getattr(obj, 'num_inputs', 0))\<close> of the scan, entered
  for a Perceptron or a Light only: the first input whose hit-region holds the position.
\<close>

fun scan_inputs :: "entity \<Rightarrow> pos \<Rightarrow> nat option" where
  "scan_inputs (Switch s) p0 = None"
| "scan_inputs (Perceptron p) p0 =
     find (\<lambda>i. rect_hit (perceptron_get_input_node_rect p i) p0)
          [0 ..< nat (perceptron.num_inputs p)]"
| "scan_inputs (Light l) p0 =
     find (\<lambda>i. rect_hit (light_get_input_node_rect l i) p0)
          [0 ..< nat (light.num_inputs l)]"

text \<open>The outer loop \<^verbatim>\<open>for obj in all_objects\<close>; \<open>k\<close> is the index of the head.\<close>

fun find_target_from :: "nat \<Rightarrow> entity list \<Rightarrow> pos \<Rightarrow> (nat \<times> nat) option" where
  "find_target_from k [] p0 = None"
| "find_target_from k (obj # objs) p0 =
     (case scan_inputs obj p0 of
        Some i \<Rightarrow> Some (k, i)
      | None \<Rightarrow> find_target_from (Suc k) objs p0)"

definition find_target :: "entity list \<Rightarrow> pos \<Rightarrow> (nat \<times> nat) option" where
  "find_target objs p0 = find_target_from 0 objs p0"

text \<open>
  \<^verbatim>\<open>target_obj.input_connections[target_input_index] = start_obj\<close>, guarded by the
  length test.
\<close>

fun connect_input :: "entity \<Rightarrow> nat \<Rightarrow> nat \<Rightarrow> entity" where
  "connect_input (Switch s) i src = Switch s"
| "connect_input (Perceptron p) i src =
     (if i < length (perceptron.input_connections p)
      then Perceptron (p\<lparr>perceptron.input_connections :=
                           (perceptron.input_connections p)[i := Some src]\<rparr>)
      else Perceptron p)"
| "connect_input (Light l) i src =
     (if i < length (light.input_connections l)
      then Light (l\<lparr>light.input_connections := (light.input_connections l)[i := Some src]\<rparr>)
      else Light l)"

text \<open>The search for \<^verbatim>\<open>existing_conn_idx\<close>: the first entry whose target is \<open>(t, i)\<close>.\<close>

fun existing_conn_idx :: "nat \<Rightarrow> nat \<Rightarrow> conn list \<Rightarrow> nat option" where
  "existing_conn_idx t i [] = None"
| "existing_conn_idx t i (c # cs) =
     (if conn_matches t i c then Some 0 else map_option Suc (existing_conn_idx t i cs))"

definition add_or_update_connection :: "nat \<Rightarrow> nat \<Rightarrow> nat \<Rightarrow> conn list \<Rightarrow> conn list" where
  "add_or_update_connection src t i conns =
     (case existing_conn_idx t i conns of
        Some k \<Rightarrow> conns[k := (conns ! k)\<lparr>source_obj := src\<rparr>]
      | None \<Rightarrow> conns @ [\<lparr>source_obj = src, target_obj = t, target_input_idx = i\<rparr>])"

definition reset_gstate :: gstate where
  "reset_gstate = \<lparr>is_drawing_connection = False, connection_start_obj = None,
                   connection_start_pos = None\<rparr>"

text \<open>
  The body of \<^verbatim>\<open>if event.type == pygame.MOUSEBUTTONUP and
  global_connection_state['is_drawing_connection']\<close>. On a match the message printed
  reads \<^verbatim>\<open>start_obj.id\<close>, which raises when there is no start object.
\<close>

definition finalize_connection :: "pos \<Rightarrow> scene \<Rightarrow> py_error + scene" where
  "finalize_connection p0 s =
     (case find_target (all_objects s) p0 of
        None \<Rightarrow> Inr (s\<lparr>global_connection_state := reset_gstate\<rparr>)
      | Some (t, i) \<Rightarrow>
          (case connection_start_obj (global_connection_state s) of
             None \<Rightarrow> Inl AttributeError
           | Some src \<Rightarrow>
               Inr (s\<lparr>all_objects := (all_objects s)[t := connect_input (all_objects s ! t) i src],
                      connections := add_or_update_connection src t i (connections s),
                      global_connection_state := reset_gstate\<rparr>)))"

subsection \<open>Event dispatch\<close>

text \<open>One call \<^verbatim>\<open>obj.handle_event(event, global_connection_state, connections)\<close> for
  the object at index \<open>k\<close>.\<close>

definition entity_handle_event :: "real \<Rightarrow> nat \<Rightarrow> event \<Rightarrow> scene \<Rightarrow> py_error + (bool \<times> scene)" where
  "entity_handle_event r k ev s =
     (let g = global_connection_state s; conns = connections s in
      case (case all_objects s ! k of
              Switch sw \<Rightarrow>
                (case switch_handle_event k ev sw g conns of
                   Inl e \<Rightarrow> Inl e
                 | Inr (h, sw', g', conns') \<Rightarrow> Inr (h, Switch sw', g', conns'))
            | Perceptron p \<Rightarrow>
                (case perceptron_handle_event r k ev p g conns of
                   Inl e \<Rightarrow> Inl e
                 | Inr (h, p', g', conns') \<Rightarrow> Inr (h, Perceptron p', g', conns'))
            | Light l \<Rightarrow>
                (case light_handle_event k ev l g conns of
                   Inl e \<Rightarrow> Inl e
                 | Inr (h, l', g', conns') \<Rightarrow> Inr (h, Light l', g', conns'))) of
        Inl e \<Rightarrow> Inl e
      | Inr (h, obj', g', conns') \<Rightarrow>
          Inr (h, s\<lparr>all_objects := (all_objects s)[k := obj'],
                    connections := conns',
                    global_connection_state := g'\<rparr>))"

text \<open>
  \<^verbatim>\<open>for obj in reversed(all_objects): if obj.handle_event(...): break\<close>. The first
  argument is the number of objects not yet offered the event.
\<close>

fun dispatch :: "real \<Rightarrow> event \<Rightarrow> nat \<Rightarrow> scene \<Rightarrow> py_error + scene" where
  "dispatch r ev 0 s = Inr s"
| "dispatch r ev (Suc k) s =
     (case entity_handle_event r k ev s of
        Inl e \<Rightarrow> Inl e
      | Inr (handled, s') \<Rightarrow> if handled then Inr s' else dispatch r ev k s')"

text \<open>The body of \<^verbatim>\<open>for event in events\<close>.\<close>

definition process_event :: "real \<Rightarrow> event \<Rightarrow> scene \<Rightarrow> py_error + scene" where
  "process_event r ev s =
     (let s0 = (if ev = QUIT then s\<lparr>running := False\<rparr> else s) in
      case ev of
        MOUSEBUTTONUP p0 b \<Rightarrow>
          if is_drawing_connection (global_connection_state s0)
          then finalize_connection p0 s0
          else dispatch r ev (length (all_objects s0)) s0
      | _ \<Rightarrow> dispatch r ev (length (all_objects s0)) s0)"

subsection \<open>Evaluation\<close>

text \<open>\<^verbatim>\<open>for obj in all_objects: if isinstance(obj, Perceptron): obj.calculate_output()\<close>.\<close>

definition calculate_at :: "entity list \<Rightarrow> nat \<Rightarrow> entity list" where
  "calculate_at objs k =
     (case objs ! k of
        Perceptron p \<Rightarrow> objs[k := Perceptron (calculate_output objs p)]
      | _ \<Rightarrow> objs)"

definition perceptron_pass :: "entity list \<Rightarrow> entity list" where
  "perceptron_pass objs = foldl calculate_at objs [0 ..< length objs]"

text \<open>\<^verbatim>\<open>for obj in all_objects: if isinstance(obj, Light): obj.update_state()\<close>.\<close>

fun light_pass :: "nat list \<Rightarrow> entity list \<Rightarrow> py_error + entity list" where
  "light_pass [] objs = Inr objs"
| "light_pass (k # ks) objs =
     (case objs ! k of
        Light l \<Rightarrow>
          (case update_state objs l of
             Inl e \<Rightarrow> Inl e
           | Inr l' \<Rightarrow> light_pass ks (objs[k := Light l']))
      | _ \<Rightarrow> light_pass ks objs)"

definition tick :: "scene \<Rightarrow> py_error + scene" where
  "tick s =
     (let objs = perceptron_pass (all_objects s) in
      case light_pass [0 ..< length objs] objs of
        Inl e \<Rightarrow> Inl e
      | Inr objs' \<Rightarrow> Inr (s\<lparr>all_objects := objs'\<rparr>))"

subsection \<open>The initial scene and the states the loop reaches\<close>

text \<open>
  The objects created before the loop. \<open>rnd\<close> is the sequence of random samples: the
  first perceptron draws two weights and a bias, the second one weight and a bias.
\<close>

definition init_scene :: "(nat \<Rightarrow> real) \<Rightarrow> py_error + scene" where
  "init_scene rnd =
     (case Perceptron_init rnd 200 100 2 None None of
        Inl e \<Rightarrow> Inl e
      | Inr perceptron1 \<Rightarrow>
          (case Perceptron_init (\<lambda>k. rnd (k + 3)) 400 200 1 None None of
             Inl e \<Rightarrow> Inl e
           | Inr perceptron2 \<Rightarrow>
               Inr \<lparr>all_objects = [Switch (Switch_init 50 50), Switch (Switch_init 50 150),
                                   Perceptron perceptron1, Perceptron perceptron2,
                                   Light (Light_init 600 100), Light (Light_init 600 250)],
                    connections = [],
                    global_connection_state = reset_gstate,
                    running = True\<rparr>))"

inductive reachable :: "scene \<Rightarrow> bool" where
  reachable_init: "init_scene rnd = Inr s \<Longrightarrow> reachable s"
| reachable_event: "reachable s \<Longrightarrow> process_event r ev s = Inr s' \<Longrightarrow> reachable s'"
| reachable_tick: "reachable s \<Longrightarrow> tick s = Inr s' \<Longrightarrow> reachable s'"

section \<open>Notions used to state the properties\<close>

text \<open>
  The data-model invariant of a Perceptron: the input count lies in \<open>[1, 8]\<close> and the
  weights, the input slots and the input values all have that length.
\<close>

definition perceptron_inv :: "perceptron \<Rightarrow> bool" where
  "perceptron_inv p \<longleftrightarrow>
     1 \<le> perceptron.num_inputs p \<and> perceptron.num_inputs p \<le> 8 \<and>
     int (length (weights p)) = perceptron.num_inputs p \<and>
     int (length (perceptron.input_connections p)) = perceptron.num_inputs p \<and>
     int (length (input_values p)) = perceptron.num_inputs p"





text \<open>The registry invariant: no two entries share a target port.\<close>

definition conn_target :: "conn \<Rightarrow> nat \<times> nat" where
  "conn_target c = (target_obj c, target_input_idx c)"

definition unique_targets :: "conn list \<Rightarrow> bool" where
  "unique_targets conns \<longleftrightarrow> distinct (map conn_target conns)"

text \<open>Concrete objects for checking the theorems on examples.\<close>

definition zero_rnd :: "nat \<Rightarrow> real" where
  "zero_rnd k = 0"

definition switch_with :: "int \<Rightarrow> switch" where
  "switch_with v = (Switch_init 50 50)\<lparr>switch.output_value := v\<rparr>"

definition and_gate :: perceptron where
  "and_gate = (projr (Perceptron_init zero_rnd 200 100 2 (Some [1, 1]) (Some (- 3 / 2))))
                \<lparr>perceptron.input_connections := [Some 0, Some 1]\<rparr>"


definition perceptron_of :: "int \<Rightarrow> perceptron" where
  "perceptron_of n = projr (Perceptron_init zero_rnd 200 100 n None None)"

definition and_registry :: "conn list" where
  "and_registry = [\<lparr>source_obj = 0, target_obj = 2, target_input_idx = 0\<rparr>,
                   \<lparr>source_obj = 1, target_obj = 2, target_input_idx = 1\<rparr>]"

text \<open>The hit-regions of an object's input ports, and a position outside all of them.\<close>

fun entity_input_rects :: "entity \<Rightarrow> Rect list" where
  "entity_input_rects (Switch s) = []"
| "entity_input_rects (Perceptron p) = perceptron.input_node_rects p"
| "entity_input_rects (Light l) = light.input_node_rects l"

definition no_input_port_hit :: "entity list \<Rightarrow> pos \<Rightarrow> bool" where
  "no_input_port_hit objs pt \<longleftrightarrow>
     (\<forall>obj\<in>set objs. \<forall>r\<in>set (entity_input_rects obj). \<not> collidepoint r pt)"

text \<open>The input slots of an object.\<close>

fun entity_slots :: "entity \<Rightarrow> nat option list" where
  "entity_slots (Switch s) = []"
| "entity_slots (Perceptron p) = perceptron.input_connections p"
| "entity_slots (Light l) = light.input_connections l"

definition scene0 :: scene where
  "scene0 = projr (init_scene zero_rnd)"

definition drawing_from :: "nat \<Rightarrow> scene \<Rightarrow> scene" where
  "drawing_from src s =
     s\<lparr>global_connection_state :=
         \<lparr>is_drawing_connection = True, connection_start_obj = Some src,
          connection_start_pos = Some (96, 70)\<rparr>\<rparr>"

text \<open>
  The invariants of the scene: every object satisfies its data-model invariant, the
  registry has no duplicate targets, every occupied input slot has a registry entry, and
  a wire-draw is in progress exactly when its start object is set.
\<close>

fun entity_inv :: "entity \<Rightarrow> bool" where
  "entity_inv (Switch s) = True"
| "entity_inv (Perceptron p) = perceptron_inv p"
| "entity_inv (Light l) = (light.num_inputs l = 1 \<and> length (light.input_connections l) = 1)"

definition slots_registered :: "entity list \<Rightarrow> conn list \<Rightarrow> bool" where
  "slots_registered objs conns \<longleftrightarrow>
     (\<forall>t<length objs. \<forall>i<length (entity_slots (objs ! t)).
        entity_slots (objs ! t) ! i \<noteq> None \<longrightarrow> (\<exists>c\<in>set conns. conn_matches t i c))"

definition gstate_inv :: "gstate \<Rightarrow> bool" where
  "gstate_inv g \<longleftrightarrow> (is_drawing_connection g \<longleftrightarrow> connection_start_obj g \<noteq> None)"

definition scene_inv :: "scene \<Rightarrow> bool" where
  "scene_inv s \<longleftrightarrow>
     (\<forall>e\<in>set (all_objects s). entity_inv e) \<and>
     unique_targets (connections s) \<and>
     slots_registered (all_objects s) (connections s) \<and>
     gstate_inv (global_connection_state s)"

text \<open>
  What one handler call can do to the slots of its object \<open>k\<close> and to the registry:
  nothing, append an empty slot, drop the last slot together with its entry, or empty
  one slot together with its entry.
\<close>

definition registry_effect ::
  "nat \<Rightarrow> nat option list \<Rightarrow> conn list \<Rightarrow> nat option list \<Rightarrow> conn list \<Rightarrow> bool" where
  "registry_effect k sl conns sl' conns' \<longleftrightarrow>
     (sl' = sl \<and> conns' = conns) \<or>
     (sl' = sl @ [None] \<and> conns' = conns) \<or>
     (sl \<noteq> [] \<and> sl' = butlast sl \<and>
      conns' = (if last sl \<noteq> None then remove_connection k (length sl - 1) conns else conns)) \<or>
     (\<exists>i<length sl. sl' = sl[i := None] \<and> conns' = remove_connection k i conns)"

fun entity_dragging :: "entity \<Rightarrow> bool" where
  "entity_dragging (Switch s) = is_dragging s"
| "entity_dragging (Perceptron p) = is_dragging p"
| "entity_dragging (Light l) = is_dragging l"

text \<open>
  Two object lists of the same length whose objects agree on slots and dragging flags,
  the second satisfying the object invariants when the first does.
\<close>

definition same_structure :: "entity list \<Rightarrow> entity list \<Rightarrow> bool" where
  "same_structure objs objs' \<longleftrightarrow>
     length objs' = length objs \<and>
     map entity_slots objs' = map entity_slots objs \<and>
     map entity_dragging objs' = map entity_dragging objs \<and>
     ((\<forall>e\<in>set objs. entity_inv e) \<longrightarrow> (\<forall>e\<in>set objs'. entity_inv e))"

text \<open>Every region of an object that a handler tests a pointer position against.\<close>

fun entity_rects :: "entity \<Rightarrow> Rect list" where
  "entity_rects (Switch s) = [rect s, toggle_rect s, switch.output_node_rect s]"
| "entity_rects (Perceptron p) =
     [rect p, plus_button_rect p, minus_button_rect p, perceptron.output_node_rect p]
       @ perceptron.input_node_rects p"
| "entity_rects (Light l) = rect l # light.input_node_rects l"

text \<open>The number of objects whose dragging flag is set.\<close>

definition dragging_count :: "scene \<Rightarrow> nat" where
  "dragging_count s = length (filter entity_dragging (all_objects s))"

text \<open>The objects of the initial scene for the random sequence that is constantly 0.\<close>

definition switch1 :: switch where "switch1 = Switch_init 50 50"
definition switch2 :: switch where "switch2 = Switch_init 50 150"
definition perceptron1 :: perceptron where "perceptron1 = perceptron_of 2"
definition perceptron2 :: perceptron where
  "perceptron2 = projr (Perceptron_init (\<lambda>k. zero_rnd (k + 3)) 400 200 1 None None)"
definition light1 :: light where "light1 = Light_init 600 100"
definition light2 :: light where "light2 = Light_init 600 250"

definition start_drag :: "pos \<Rightarrow> switch \<Rightarrow> switch" where
  "start_drag pt sw = sw\<lparr>is_dragging := True,
                          drag_offset_x := rect_x (rect sw) - fst pt,
                          drag_offset_y := rect_y (rect sw) - snd pt\<rparr>"

definition entity_misses :: "entity \<Rightarrow> pos \<Rightarrow> bool" where
  "entity_misses e pt \<longleftrightarrow> (\<forall>r\<in>set (entity_rects e). \<not> collidepoint r pt)"

text \<open>Processing a list of events in order, stopping at the first error.\<close>

fun run_events :: "event list \<Rightarrow> scene \<Rightarrow> py_error + scene" where
  "run_events [] s = Inr s"
| "run_events (ev # evs) s =
     (case process_event 0 ev s of Inl e \<Rightarrow> Inl e | Inr s' \<Rightarrow> run_events evs s')"

text \<open>The scene after pressing the left button on both switch bodies.\<close>

definition two_drags :: scene where
  "two_drags = scene0\<lparr>all_objects :=
      [Switch (start_drag (52, 52) switch1), Switch (start_drag (52, 152) switch2),
       Perceptron perceptron1, Perceptron perceptron2, Light light1, Light light2]\<rparr>"

text \<open>
  The scene after wiring the first switch to input 0 of the first perceptron and then
  starting a wire-draw at the output port of the second switch.
\<close>

definition wired :: scene where
  "wired = \<lparr>all_objects =
               [Switch switch1, Switch switch2,
                Perceptron (perceptron1\<lparr>perceptron.input_connections := [Some 0, None]\<rparr>),
                Perceptron perceptron2, Light light1, Light light2],
            connections = [\<lparr>source_obj = 0, target_obj = 2, target_input_idx = 0\<rparr>],
            global_connection_state =
              \<lparr>is_drawing_connection = True, connection_start_obj = Some 1,
               connection_start_pos = Some (96, 170)\<rparr>,
            running = True\<rparr>"

text \<open>
  Chains for the propagation through a tick: a relay is a one-input Perceptron with
  weight 1 and bias \<open>-0.5\<close>, whose output after evaluation equals its input when that
  is 0 or 1. In \<open>chain_pq\<close> the switch feeds P at index 1 and P feeds Q at index 2; in
  \<open>chain_qp\<close> the switch feeds P at index 2 and P feeds Q at index 1. Both relays start
  with output 0.
\<close>

definition relay :: "nat \<Rightarrow> perceptron" where
  "relay src = (projr (Perceptron_init zero_rnd 0 0 1 (Some [1]) (Some (- 1 / 2))))
                 \<lparr>perceptron.input_connections := [Some src]\<rparr>"

definition chain_pq :: "int \<Rightarrow> entity list" where
  "chain_pq v = [Switch (switch_with v), Perceptron (relay 0), Perceptron (relay 1)]"

definition chain_qp :: "int \<Rightarrow> entity list" where
  "chain_qp v = [Switch (switch_with v), Perceptron (relay 2), Perceptron (relay 0)]"

definition scene_of :: "entity list \<Rightarrow> scene" where
  "scene_of objs = \<lparr>all_objects = objs, connections = [],
                    global_connection_state = reset_gstate, running = True\<rparr>"

definition then_tick :: "py_error + scene \<Rightarrow> py_error + scene" where
  "then_tick r = (case r of Inl e \<Rightarrow> Inl e | Inr s \<Rightarrow> tick s)"

definition outputs :: "py_error + scene \<Rightarrow> int list" where
  "outputs r = (case r of Inl e \<Rightarrow> [] | Inr s \<Rightarrow> map get_output_value (all_objects s))"

section \<open>Verified properties\<close>

subsection \<open>Auxiliary facts about the Perceptron operations\<close>





lemma update_node_positions_fields:
  "perceptron_update_node_positions p = Inr p' \<Longrightarrow>
        perceptron.num_inputs p' = perceptron.num_inputs p \<and> weights p' = weights p \<and>
        bias p' = bias p \<and> perceptron.output_value p' = perceptron.output_value p \<and>
        input_values p' = input_values p \<and>
        perceptron.input_connections p' = perceptron.input_connections p \<and>
        is_dragging p' = is_dragging p \<and> rect p' = rect p \<and>
        drag_offset_x p' = drag_offset_x p \<and> drag_offset_y p' = drag_offset_y p"
  by (auto simp: perceptron_update_node_positions_def Let_def split: if_splits)

lemma update_node_positions_inv:
  "perceptron_update_node_positions p = Inr p' \<Longrightarrow> perceptron_inv p' = perceptron_inv p"
  by (drule update_node_positions_fields) (simp add: perceptron_inv_def)







lemma and_gate_simps:
  "weights and_gate = [1, 1]" "bias and_gate = - 3 / 2"
  "perceptron.num_inputs and_gate = 2"
  "perceptron.input_connections and_gate = [Some 0, Some 1]"
  by (simp_all add: and_gate_def Perceptron_init_def perceptron_update_node_positions_def Let_def)

subsection \<open>Threshold semantics of one evaluation step\<close>



subsection \<open>The input count under '+' and '-'\<close>



subsection \<open>Construction\<close>

text \<open>
  Claim C8. Constructing a Perceptron with explicit weights whose length differs from the
  Perceptron's input count raises \<open>ValueError\<close>; with the matching length the
  construction succeeds and stores the given weights unchanged.
\<close>

theorem Perceptron_init_weights_length:
  "(int (length ws) \<noteq> max 1 n \<longrightarrow> Perceptron_init rnd x y n (Some ws) b = Inl ValueError) \<and>
   (int (length ws) = max 1 n \<longrightarrow>
      (\<exists>p. Perceptron_init rnd x y n (Some ws) b = Inr p \<and> weights p = ws \<and>
           int (length (weights p)) = perceptron.num_inputs p))"
  by (auto simp: Perceptron_init_def perceptron_update_node_positions_def Let_def)

theorem Perceptron_init_weights_length_witness:
  "Perceptron_init zero_rnd 0 0 2 (Some [1]) None = Inl ValueError \<and>
   (\<exists>p. Perceptron_init zero_rnd 0 0 2 (Some [1, 1]) None = Inr p \<and> weights p = [1, 1])"
  using Perceptron_init_weights_length [of "[1]" 2 zero_rnd 0 0 None]
        Perceptron_init_weights_length [of "[1, 1]" 2 zero_rnd 0 0 None]
  by auto

text \<open>
  Claim C9. The constructor clamps the requested input count to at least 1, and explicit
  weights are checked against the clamped count: the construction raises exactly when
  their number differs from \<open>max 1 n\<close>. Requesting 0 inputs with one weight succeeds and
  gives a Perceptron with one input.
\<close>

theorem Perceptron_init_clamps_input_count:
  "(\<forall>p. Perceptron_init rnd x y n ws b = Inr p \<longrightarrow> perceptron.num_inputs p = max 1 n) \<and>
   (\<forall>given. Perceptron_init rnd x y n (Some given) b = Inl ValueError
              \<longleftrightarrow> int (length given) \<noteq> max 1 n) \<and>
   (\<exists>p. Perceptron_init rnd x y 0 (Some [w]) b = Inr p \<and>
        perceptron.num_inputs p = 1 \<and> weights p = [w])"
  by (auto simp: Perceptron_init_def perceptron_update_node_positions_def Let_def
           split: option.splits if_splits)

theorem Perceptron_init_clamps_input_count_witness:
  "(\<exists>p. Perceptron_init zero_rnd 0 0 (- 3) None None = Inr p \<and> perceptron.num_inputs p = 1) \<and>
   Perceptron_init zero_rnd 0 0 0 (Some []) None = Inl ValueError"
proof -
  have "\<exists>p. Perceptron_init zero_rnd 0 0 (- 3) None None = Inr p"
    by (simp add: Perceptron_init_def perceptron_update_node_positions_def Let_def)
  then show ?thesis
    using Perceptron_init_clamps_input_count [of zero_rnd 0 0 "- 3" None None]
          Perceptron_init_clamps_input_count [of zero_rnd 0 0 0 None None]
    by auto
qed

subsection \<open>Removing entries from the registry\<close>

lemma remove_connection_from_split:
  "n \<le> length conns \<Longrightarrow>
   ((\<forall>k<n. \<not> conn_matches t i (conns ! k)) \<and> remove_connection_from n t i conns = conns) \<or>
   (\<exists>k<n. conn_matches t i (conns ! k) \<and> (\<forall>j. k < j \<and> j < n \<longrightarrow> \<not> conn_matches t i (conns ! j)) \<and>
          remove_connection_from n t i conns = take k conns @ drop (Suc k) conns)"
proof (induction n)
  case 0
  then show ?case by simp
next
  case (Suc n)
  show ?case
  proof (cases "conn_matches t i (conns ! n)")
    case True
    then show ?thesis by (auto intro!: exI[of _ n])
  next
    case False
    from Suc have "n \<le> length conns" by simp
    from Suc.IH[OF this] show ?thesis
    proof
      assume a: "(\<forall>k<n. \<not> conn_matches t i (conns ! k)) \<and> remove_connection_from n t i conns = conns"
      with False have "\<forall>k<Suc n. \<not> conn_matches t i (conns ! k)"
        by (auto simp: less_Suc_eq)
      with a False show ?thesis by simp
    next
      assume "\<exists>k<n. conn_matches t i (conns ! k) \<and> (\<forall>j. k < j \<and> j < n \<longrightarrow> \<not> conn_matches t i (conns ! j)) \<and>
          remove_connection_from n t i conns = take k conns @ drop (Suc k) conns"
      then obtain k where k: "k < n" "conn_matches t i (conns ! k)"
        "\<forall>j. k < j \<and> j < n \<longrightarrow> \<not> conn_matches t i (conns ! j)"
        "remove_connection_from n t i conns = take k conns @ drop (Suc k) conns" by blast
      with False have "\<forall>j. k < j \<and> j < Suc n \<longrightarrow> \<not> conn_matches t i (conns ! j)"
        by (auto simp: less_Suc_eq)
      with k False show ?thesis by (intro disjI2 exI[of _ k]) simp
    qed
  qed
qed

lemma remove_connection_cases:
  "((\<forall>c\<in>set conns. \<not> conn_matches t i c) \<and> remove_connection t i conns = conns) \<or>
   (\<exists>xs c ys. conns = xs @ c # ys \<and> conn_matches t i c \<and> (\<forall>c'\<in>set ys. \<not> conn_matches t i c') \<and>
        remove_connection t i conns = xs @ ys)"
proof -
  have "length conns \<le> length conns" by simp
  from remove_connection_from_split[OF this, of t i]
  show ?thesis unfolding remove_connection_def
  proof
    assume "(\<forall>k<length conns. \<not> conn_matches t i (conns ! k)) \<and>
        remove_connection_from (length conns) t i conns = conns"
    then show "((\<forall>c\<in>set conns. \<not> conn_matches t i c) \<and>
        remove_connection_from (length conns) t i conns = conns) \<or>
       (\<exists>xs c ys. conns = xs @ c # ys \<and> conn_matches t i c \<and> (\<forall>c'\<in>set ys. \<not> conn_matches t i c') \<and>
        remove_connection_from (length conns) t i conns = xs @ ys)"
      by (auto simp: in_set_conv_nth)
  next
    assume "\<exists>k<length conns. conn_matches t i (conns ! k) \<and>
        (\<forall>j. k < j \<and> j < length conns \<longrightarrow> \<not> conn_matches t i (conns ! j)) \<and>
        remove_connection_from (length conns) t i conns = take k conns @ drop (Suc k) conns"
    then obtain k where k: "k < length conns" "conn_matches t i (conns ! k)"
      "\<forall>j. k < j \<and> j < length conns \<longrightarrow> \<not> conn_matches t i (conns ! j)"
      "remove_connection_from (length conns) t i conns = take k conns @ drop (Suc k) conns"
      by blast
    have split: "conns = take k conns @ conns ! k # drop (Suc k) conns"
      using k(1) by (simp add: id_take_nth_drop)
    have "\<forall>c'\<in>set (drop (Suc k) conns). \<not> conn_matches t i c'"
    proof
      fix c' assume "c' \<in> set (drop (Suc k) conns)"
      then obtain m where "m < length conns - Suc k" "c' = drop (Suc k) conns ! m"
        by (auto simp: in_set_conv_nth)
      then have "c' = conns ! (Suc k + m)" "Suc k + m < length conns" by auto
      with k(3) show "\<not> conn_matches t i c'" by auto
    qed
    with split k(2,4)
    show "((\<forall>c\<in>set conns. \<not> conn_matches t i c) \<and>
        remove_connection_from (length conns) t i conns = conns) \<or>
       (\<exists>xs c ys. conns = xs @ c # ys \<and> conn_matches t i c \<and> (\<forall>c'\<in>set ys. \<not> conn_matches t i c') \<and>
        remove_connection_from (length conns) t i conns = xs @ ys)"
      by blast
  qed
qed

lemma conn_matches_target: "conn_matches t i c \<longleftrightarrow> conn_target c = (t, i)"
  by (auto simp: conn_matches_def conn_target_def)

lemma unique_targets_split:
  "unique_targets (xs @ c # ys) \<Longrightarrow> conn_matches t i c \<Longrightarrow>
   (\<forall>c'\<in>set xs \<union> set ys. \<not> conn_matches t i c') \<and> unique_targets (xs @ ys)"
  by (force simp: unique_targets_def conn_matches_target)

lemma remove_connection_unique:
  assumes "unique_targets conns"
  shows "unique_targets (remove_connection t i conns) \<and>
         (\<forall>c'\<in>set (remove_connection t i conns). \<not> conn_matches t i c') \<and>
         set (remove_connection t i conns) = {c \<in> set conns. \<not> conn_matches t i c}"
  using remove_connection_cases[of conns t i]
proof
  assume "(\<forall>c\<in>set conns. \<not> conn_matches t i c) \<and> remove_connection t i conns = conns"
  with assms show ?thesis by auto
next
  assume "\<exists>xs c ys. conns = xs @ c # ys \<and> conn_matches t i c \<and> (\<forall>c'\<in>set ys. \<not> conn_matches t i c') \<and>
        remove_connection t i conns = xs @ ys"
  then obtain xs c ys where h: "conns = xs @ c # ys" "conn_matches t i c"
     "remove_connection t i conns = xs @ ys" by blast
  from unique_targets_split[of xs c ys t i] assms h
  have "\<forall>c'\<in>set xs \<union> set ys. \<not> conn_matches t i c'" "unique_targets (xs @ ys)" by auto
  with h show ?thesis by auto
qed

lemma and_gate_inv: "perceptron_inv and_gate"
  by (simp add: perceptron_inv_def and_gate_simps)
     (simp add: and_gate_def Perceptron_init_def perceptron_update_node_positions_def Let_def)


subsection \<open>Decrementing the input count\<close>

text \<open>
  Claim C4. For a Perceptron with more than one input that satisfies the data-model
  invariant, in a registry without duplicate targets that holds an entry for the last
  slot whenever that slot holds a source: \<open>decrement_inputs\<close> succeeds, lowers the input
  count by one, and drops exactly the last weight and the last input slot. When the
  dropped slot was empty the registry is unchanged; when it held a source, exactly one
  entry is deleted, its target is this Perceptron at the removed index, all other entries
  stay as they were, and no entry for that port remains.
\<close>

theorem decrement_inputs_removes_last:
  assumes inv: "perceptron_inv p" and n: "perceptron.num_inputs p > 1"
    and uniq: "unique_targets conns"
    and mirror: "last (perceptron.input_connections p) \<noteq> None \<longrightarrow>
                   (\<exists>c\<in>set conns. conn_matches self (nat (perceptron.num_inputs p - 1)) c)"
  shows "\<exists>p' conns'. decrement_inputs self p conns = Inr (p', conns') \<and>
           perceptron.num_inputs p' = perceptron.num_inputs p - 1 \<and>
           (\<exists>w. weights p = weights p' @ [w]) \<and>
           (\<exists>slot. perceptron.input_connections p = perceptron.input_connections p' @ [slot] \<and>
              (slot = None \<longrightarrow> conns' = conns) \<and>
              (slot \<noteq> None \<longrightarrow>
                 (\<exists>xs c ys. conns = xs @ c # ys \<and> conns' = xs @ ys \<and>
                    target_obj c = self \<and>
                    int (target_input_idx c) = perceptron.num_inputs p - 1 \<and>
                    (\<forall>c'\<in>set conns'. \<not> (target_obj c' = self \<and>
                        int (target_input_idx c') = perceptron.num_inputs p - 1)))))"
proof -
  let ?i = "nat (perceptron.num_inputs p - 1)"
  let ?p1 = "p\<lparr>perceptron.num_inputs := perceptron.num_inputs p - 1,
                     weights := butlast (weights p),
                     perceptron.input_connections := butlast (perceptron.input_connections p),
                     input_values := butlast (input_values p)\<rparr>"
  let ?conns' = "if last (perceptron.input_connections p) \<noteq> None
                 then remove_connection self ?i conns else conns"
  have ne: "weights p \<noteq> []" "perceptron.input_connections p \<noteq> []" "input_values p \<noteq> []"
    using inv n by (auto simp: perceptron_inv_def)
  have "perceptron.num_inputs ?p1 + 1 \<noteq> 0" using n by simp
  then obtain p' where p': "perceptron_update_node_positions ?p1 = Inr p'"
    by (auto simp: perceptron_update_node_positions_def Let_def)
  note f = update_node_positions_fields[OF p']
  have dec: "decrement_inputs self p conns = Inr (p', ?conns')"
    using n ne p' by (simp add: decrement_inputs_def min_inputs_def Let_def)
  have w: "weights p = weights p' @ [last (weights p)]"
    using f ne by simp
  have sl: "perceptron.input_connections p
              = perceptron.input_connections p' @ [last (perceptron.input_connections p)]"
    using f ne by simp
  have idx: "int (target_input_idx c) = perceptron.num_inputs p - 1 \<longleftrightarrow> target_input_idx c = ?i" for c :: conn
    using n by auto
  have reg: "\<exists>xs c ys. conns = xs @ c # ys \<and> ?conns' = xs @ ys \<and>
                    target_obj c = self \<and>
                    int (target_input_idx c) = perceptron.num_inputs p - 1 \<and>
                    (\<forall>c'\<in>set ?conns'. \<not> (target_obj c' = self \<and>
                        int (target_input_idx c') = perceptron.num_inputs p - 1))"
    if occ: "last (perceptron.input_connections p) \<noteq> None"
  proof -
    from mirror occ obtain c0 where c0: "c0 \<in> set conns" "conn_matches self ?i c0" by blast
    from remove_connection_cases[of conns self ?i] c0
    obtain xs c ys where h: "conns = xs @ c # ys" "conn_matches self ?i c"
        "remove_connection self ?i conns = xs @ ys" by blast
    from remove_connection_unique[OF uniq, of self ?i]
    have "\<forall>c'\<in>set (remove_connection self ?i conns). \<not> conn_matches self ?i c'" by blast
    with h occ n have "conns = xs @ c # ys \<and> ?conns' = xs @ ys \<and>
                    target_obj c = self \<and>
                    int (target_input_idx c) = perceptron.num_inputs p - 1 \<and>
                    (\<forall>c'\<in>set ?conns'. \<not> (target_obj c' = self \<and>
                        int (target_input_idx c') = perceptron.num_inputs p - 1))"
      by (simp add: conn_matches_def idx)
    then show ?thesis by blast
  qed
  have slots: "\<exists>slot. perceptron.input_connections p = perceptron.input_connections p' @ [slot] \<and>
              (slot = None \<longrightarrow> ?conns' = conns) \<and>
              (slot \<noteq> None \<longrightarrow>
                 (\<exists>xs c ys. conns = xs @ c # ys \<and> ?conns' = xs @ ys \<and>
                    target_obj c = self \<and>
                    int (target_input_idx c) = perceptron.num_inputs p - 1 \<and>
                    (\<forall>c'\<in>set ?conns'. \<not> (target_obj c' = self \<and>
                        int (target_input_idx c') = perceptron.num_inputs p - 1))))"
  proof (intro exI[of _ "last (perceptron.input_connections p)"] conjI impI)
    show "perceptron.input_connections p
              = perceptron.input_connections p' @ [last (perceptron.input_connections p)]"
      by (rule sl)
  next
    assume "last (perceptron.input_connections p) = None"
    then show "?conns' = conns" by simp
  next
    assume "last (perceptron.input_connections p) \<noteq> None"
    then show "\<exists>xs c ys. conns = xs @ c # ys \<and> ?conns' = xs @ ys \<and>
                    target_obj c = self \<and>
                    int (target_input_idx c) = perceptron.num_inputs p - 1 \<and>
                    (\<forall>c'\<in>set ?conns'. \<not> (target_obj c' = self \<and>
                        int (target_input_idx c') = perceptron.num_inputs p - 1))"
      by (rule reg)
  qed
  have ni: "perceptron.num_inputs p' = perceptron.num_inputs p - 1" using f by simp
  have "\<exists>w. weights p = weights p' @ [w]" using w by blast
  with dec ni slots show ?thesis by blast
qed

theorem decrement_inputs_removes_last_witness:
  "perceptron_inv and_gate \<and> perceptron.num_inputs and_gate > 1 \<and> unique_targets and_registry \<and>
   last (perceptron.input_connections and_gate) \<noteq> None \<and>
   (\<exists>p' conns'. decrement_inputs 2 and_gate and_registry = Inr (p', conns') \<and>
       perceptron.num_inputs p' = 1 \<and> length conns' = 1 \<and>
       perceptron.input_connections p' = [Some 0])"
proof -
  have u: "unique_targets and_registry"
    by (simp add: unique_targets_def and_registry_def conn_target_def)
  have n: "perceptron.num_inputs and_gate > 1" by (simp add: and_gate_simps)
  have m: "last (perceptron.input_connections and_gate) \<noteq> None \<longrightarrow>
             (\<exists>c\<in>set and_registry.
                conn_matches 2 (nat (perceptron.num_inputs and_gate - 1)) c)"
    by (simp add: and_gate_simps and_registry_def conn_matches_def)
  have l: "last (perceptron.input_connections and_gate) \<noteq> None"
    by (simp add: and_gate_simps)
  from decrement_inputs_removes_last [OF and_gate_inv n u m]
  obtain p' conns' slot where
    h: "decrement_inputs 2 and_gate and_registry = Inr (p', conns')"
       "perceptron.num_inputs p' = perceptron.num_inputs and_gate - 1"
       "perceptron.input_connections and_gate = perceptron.input_connections p' @ [slot]"
       "slot \<noteq> None \<longrightarrow> (\<exists>xs c ys. and_registry = xs @ c # ys \<and> conns' = xs @ ys)"
    by blast
  from h(3) have sl: "slot = Some 1" "perceptron.input_connections p' = [Some 0]"
    by (simp_all add: and_gate_simps)
  with h(4) obtain xs c ys where e: "and_registry = xs @ c # ys" "conns' = xs @ ys" by auto
  from arg_cong [OF e(1), of length] e(2) have "length and_registry = length conns' + 1"
    by simp
  then have "length conns' = 1" by (simp add: and_registry_def)
  with h(1,2) sl and_gate_inv n u l show ?thesis
    by (simp add: and_gate_simps)
qed


subsection \<open>Evaluation on malformed states\<close>





subsection \<open>Effects of the handlers on slots and registry\<close>

lemma remove_connection_keeps:
  assumes "c \<in> set conns" "\<not> conn_matches t i c"
  shows "c \<in> set (remove_connection t i conns)"
  using remove_connection_cases[of conns t i]
proof
  assume "(\<forall>c\<in>set conns. \<not> conn_matches t i c) \<and> remove_connection t i conns = conns"
  with assms show ?thesis by simp
next
  assume "\<exists>xs c ys. conns = xs @ c # ys \<and> conn_matches t i c \<and>
            (\<forall>c'\<in>set ys. \<not> conn_matches t i c') \<and> remove_connection t i conns = xs @ ys"
  then obtain xs c0 ys where h: "conns = xs @ c0 # ys" "conn_matches t i c0"
      "remove_connection t i conns = xs @ ys" by blast
  from assms h(1,2) have "c \<in> set xs \<union> set ys" by auto
  with h(3) show ?thesis by simp
qed

lemma registry_effect_unique:
  "registry_effect k sl conns sl' conns' \<Longrightarrow> unique_targets conns \<Longrightarrow> unique_targets conns'"
  by (auto simp: registry_effect_def remove_connection_unique)

lemma registry_effect_keeps:
  assumes eff: "registry_effect k sl conns sl' conns'"
    and c: "c \<in> set conns" and other: "target_obj c \<noteq> k"
  shows "c \<in> set conns'"
proof -
  have "\<not> conn_matches k i c" for i using other by (simp add: conn_matches_def)
  with eff c show ?thesis
    by (auto simp: registry_effect_def remove_connection_keeps)
qed

lemma registry_effect_own_slots:
  assumes eff: "registry_effect k sl conns sl' conns'"
    and reg: "\<forall>i<length sl. sl ! i \<noteq> None \<longrightarrow> (\<exists>c\<in>set conns. conn_matches k i c)"
  shows "\<forall>i<length sl'. sl' ! i \<noteq> None \<longrightarrow> (\<exists>c\<in>set conns'. conn_matches k i c)"
proof (intro allI impI)
  fix i assume i: "i < length sl'" and occ: "sl' ! i \<noteq> None"
  from eff consider
      (same) "sl' = sl" "conns' = conns"
    | (app) "sl' = sl @ [None]" "conns' = conns"
    | (pop) "sl \<noteq> []" "sl' = butlast sl"
            "conns' = (if last sl \<noteq> None then remove_connection k (length sl - 1) conns else conns)"
    | (clr) j where "j < length sl" "sl' = sl[j := None]" "conns' = remove_connection k j conns"
    unfolding registry_effect_def by blast
  then show "\<exists>c\<in>set conns'. conn_matches k i c"
  proof cases
    case same
    with reg i occ show ?thesis by simp
  next
    case app
    with i occ have "i < length sl" "sl ! i \<noteq> None"
      by (auto simp: nth_append less_Suc_eq)
    with reg app show ?thesis by simp
  next
    case pop
    with i occ have il: "i < length sl - 1" and "sl ! i \<noteq> None"
      by (auto simp: nth_butlast)
    moreover from il have "i < length sl" by simp
    ultimately obtain c where c: "c \<in> set conns" "conn_matches k i c" using reg by blast
    with il have "\<not> conn_matches k (length sl - 1) c" by (auto simp: conn_matches_def)
    with c pop show ?thesis by (auto intro: remove_connection_keeps)
  next
    case clr
    with i occ have ij: "i \<noteq> j" "i < length sl" "sl ! i \<noteq> None"
      by (auto simp: nth_list_update split: if_splits)
    with reg obtain c where c: "c \<in> set conns" "conn_matches k i c" by blast
    with ij have "\<not> conn_matches k j c" by (auto simp: conn_matches_def)
    with c clr show ?thesis by (auto intro: remove_connection_keeps)
  qed
qed

lemma registry_effect_registered:
  assumes eff: "registry_effect k (entity_slots (objs ! k)) conns (entity_slots e') conns'"
    and k: "k < length objs"
    and reg: "slots_registered objs conns"
  shows "slots_registered (objs[k := e']) conns'"
  unfolding slots_registered_def
proof (intro allI impI)
  fix t i
  assume t: "t < length (objs[k := e'])"
     and i: "i < length (entity_slots (objs[k := e'] ! t))"
     and occ: "entity_slots (objs[k := e'] ! t) ! i \<noteq> None"
  show "\<exists>c\<in>set conns'. conn_matches t i c"
  proof (cases "t = k")
    case True
    from reg k have "\<forall>i<length (entity_slots (objs ! k)).
        entity_slots (objs ! k) ! i \<noteq> None \<longrightarrow> (\<exists>c\<in>set conns. conn_matches k i c)"
      by (simp add: slots_registered_def)
    from registry_effect_own_slots[OF eff this] True i occ k show ?thesis by simp
  next
    case False
    with t i occ reg obtain c where c: "c \<in> set conns" "conn_matches t i c"
      by (auto simp: slots_registered_def)
    with False have "target_obj c \<noteq> k" by (simp add: conn_matches_def)
    from registry_effect_keeps[OF eff c(1) this] c(2) show ?thesis by blast
  qed
qed

lemma increment_inputs_effect:
  assumes "increment_inputs r p = Inr p'" "perceptron_inv p"
  shows "perceptron_inv p' \<and>
         registry_effect k (perceptron.input_connections p) conns
                           (perceptron.input_connections p') conns"
proof (cases "perceptron.num_inputs p < max_inputs")
  case True
  let ?q = "p\<lparr>perceptron.num_inputs := perceptron.num_inputs p + 1,
                weights := weights p @ [r],
                perceptron.input_connections := perceptron.input_connections p @ [None],
                input_values := input_values p @ [0]\<rparr>"
  from True assms(1) have u: "perceptron_update_node_positions ?q = Inr p'"
    by (simp add: increment_inputs_def)
  have "perceptron_inv ?q" using assms(2) True
    by (simp add: perceptron_inv_def max_inputs_def)
  with update_node_positions_inv[OF u] update_node_positions_fields[OF u]
  show ?thesis by (simp add: registry_effect_def)
next
  case False
  with assms show ?thesis by (simp add: increment_inputs_def registry_effect_def)
qed

lemma decrement_inputs_effect:
  assumes "decrement_inputs k p conns = Inr (p', conns')" "perceptron_inv p"
  shows "perceptron_inv p' \<and>
         registry_effect k (perceptron.input_connections p) conns
                           (perceptron.input_connections p') conns'"
proof (cases "perceptron.num_inputs p > min_inputs")
  case True
  let ?q = "p\<lparr>perceptron.num_inputs := perceptron.num_inputs p - 1,
                     weights := butlast (weights p),
                     perceptron.input_connections := butlast (perceptron.input_connections p),
                     input_values := butlast (input_values p)\<rparr>"
  have ne: "weights p \<noteq> []" "perceptron.input_connections p \<noteq> []" "input_values p \<noteq> []"
    using assms(2) by (auto simp: perceptron_inv_def)
  from True assms(1) ne obtain u: "perceptron_update_node_positions ?q = Inr p'"
    and c: "conns' = (if last (perceptron.input_connections p) \<noteq> None
                     then remove_connection k (nat (perceptron.num_inputs p - 1)) conns else conns)"
    by (auto simp: decrement_inputs_def Let_def split: sum.splits)
  have idx: "nat (perceptron.num_inputs p - 1) = length (perceptron.input_connections p) - 1"
    using assms(2) by (auto simp: perceptron_inv_def)
  have "perceptron_inv ?q" using assms(2) True
    by (auto simp: perceptron_inv_def min_inputs_def)
  with update_node_positions_inv[OF u] update_node_positions_fields[OF u] ne c idx
  show ?thesis by (simp add: registry_effect_def)
next
  case False
  with assms show ?thesis by (simp add: decrement_inputs_def registry_effect_def)
qed

lemma registry_effect_same: "registry_effect k sl conns sl conns"
  by (simp add: registry_effect_def)

lemma registry_effect_clear:
  "i < length sl \<Longrightarrow> registry_effect k sl conns (sl[i := None]) (remove_connection k i conns)"
  unfolding registry_effect_def by blast

lemma first_hit_less: "first_hit rs pt = Some i \<Longrightarrow> i < length rs"
  by (induction rs arbitrary: i) (auto split: if_splits)

lemma perceptron_right_click_effect:
  assumes "perceptron_right_click k pt p g conns = Inr (h, p', g', conns')" "perceptron_inv p"
  shows "perceptron_inv p' \<and> g' = g \<and> is_dragging p' = is_dragging p \<and>
         registry_effect k (perceptron.input_connections p) conns
                           (perceptron.input_connections p') conns' \<and>
         (\<not> h \<longrightarrow> p' = p \<and> conns' = conns)"
proof (cases "first_hit (perceptron.input_node_rects p) pt")
  case None
  with assms show ?thesis
    by (simp add: perceptron_right_click_def registry_effect_same)
next
  case (Some i)
  show ?thesis
  proof (cases "i < length (perceptron.input_connections p) \<and>
                perceptron.input_connections p ! i \<noteq> None")
    case True
    with Some assms(1) have r: "h" "g' = g" "conns' = remove_connection k i conns"
        "p' = p\<lparr>perceptron.input_connections := (perceptron.input_connections p)[i := None]\<rparr>"
      by (auto simp: perceptron_right_click_def)
    from r(4) assms(2) have "perceptron_inv p'" by (simp add: perceptron_inv_def)
    moreover from r(4) have "is_dragging p' = is_dragging p" by simp
    moreover from r(4) have "perceptron.input_connections p'
        = (perceptron.input_connections p)[i := None]" by simp
    ultimately show ?thesis using r(1,2,3) True
      by (simp add: registry_effect_clear)
  next
    case False
    with Some assms show ?thesis
      by (auto simp: perceptron_right_click_def registry_effect_same split: if_splits)
  qed
qed

lemma perceptron_left_click_effect:
  assumes "perceptron_left_click k pt p g conns = Inr (h, p', g', conns')"
  shows "perceptron_inv p' = perceptron_inv p \<and>
         perceptron.input_connections p' = perceptron.input_connections p \<and> conns' = conns \<and>
         (gstate_inv g \<longrightarrow> gstate_inv g') \<and>
         (\<not> h \<longrightarrow> p' = p \<and> g' = g)"
  using assms
  by (auto simp: perceptron_left_click_def perceptron_inv_def gstate_inv_def split: if_splits)

lemma perceptron_handle_event_effect:
  assumes "perceptron_handle_event r k ev p g conns = Inr (h, p', g', conns')" "perceptron_inv p"
  shows "perceptron_inv p' \<and>
         registry_effect k (perceptron.input_connections p) conns
                           (perceptron.input_connections p') conns' \<and>
         (gstate_inv g \<longrightarrow> gstate_inv g') \<and>
         (\<not> h \<longrightarrow> p' = p \<and> g' = g \<and> conns' = conns)"
proof (cases ev)
  case (MOUSEBUTTONDOWN pt b)
  consider (plus) "b = 1 \<and> collidepoint (plus_button_rect p) pt"
    | (minus) "\<not> (b = 1 \<and> collidepoint (plus_button_rect p) pt)"
              "b = 1 \<and> collidepoint (minus_button_rect p) pt"
    | (right) "\<not> (b = 1 \<and> collidepoint (plus_button_rect p) pt)"
              "\<not> (b = 1 \<and> collidepoint (minus_button_rect p) pt)" "b = 3"
    | (left) "\<not> (b = 1 \<and> collidepoint (plus_button_rect p) pt)"
              "\<not> (b = 1 \<and> collidepoint (minus_button_rect p) pt)" "b \<noteq> 3" "b = 1"
    | (none) "b \<noteq> 3" "b \<noteq> 1"
    by blast
  then show ?thesis
  proof cases
    case plus
    with assms(1) MOUSEBUTTONDOWN obtain "increment_inputs r p = Inr p'" "g' = g" "conns' = conns" "h"
      by (auto simp: perceptron_handle_event_def split: sum.splits)
    with increment_inputs_effect[OF _ assms(2), of r p' k conns] show ?thesis by simp
  next
    case minus
    with assms(1) MOUSEBUTTONDOWN obtain "decrement_inputs k p conns = Inr (p', conns')" "g' = g" "h"
      by (auto simp: perceptron_handle_event_def split: sum.splits)
    with decrement_inputs_effect[OF _ assms(2), of k conns p' conns'] show ?thesis by simp
  next
    case right
    with assms(1) MOUSEBUTTONDOWN have "perceptron_right_click k pt p g conns = Inr (h, p', g', conns')"
      by (simp add: perceptron_handle_event_def)
    from perceptron_right_click_effect[OF this assms(2)] show ?thesis by simp
  next
    case left
    with assms(1) MOUSEBUTTONDOWN have "perceptron_left_click k pt p g conns = Inr (h, p', g', conns')"
      by (simp add: perceptron_handle_event_def)
    from perceptron_left_click_effect[OF this] assms(2) show ?thesis
      by (simp add: registry_effect_def)
  next
    case none
    with assms MOUSEBUTTONDOWN show ?thesis
      by (simp add: perceptron_handle_event_def registry_effect_def)
  qed
next
  case (MOUSEBUTTONUP pt b)
  with assms show ?thesis
    by (auto simp: perceptron_handle_event_def registry_effect_def perceptron_inv_def
             split: if_splits)
next
  case (MOUSEMOTION pt)
  show ?thesis
  proof (cases "is_dragging p")
    case True
    let ?q = "p\<lparr>rect := (rect p)\<lparr>rect_x := fst pt + drag_offset_x p,
                                              rect_y := snd pt + drag_offset_y p\<rparr>\<rparr>"
    from True assms(1) MOUSEMOTION obtain u: "perceptron_update_node_positions ?q = Inr p'"
      and "g' = g" "conns' = conns" "h"
      by (auto simp: perceptron_handle_event_def split: sum.splits)
    moreover have "perceptron_inv ?q" using assms(2) by (simp add: perceptron_inv_def)
    ultimately show ?thesis
      using update_node_positions_inv[OF u] update_node_positions_fields[OF u]
      by (simp add: registry_effect_def)
  next
    case False
    with assms MOUSEMOTION show ?thesis
      by (simp add: perceptron_handle_event_def registry_effect_def)
  qed
next
  case QUIT
  with assms show ?thesis by (simp add: perceptron_handle_event_def registry_effect_def)
next
  case OTHER
  with assms show ?thesis by (simp add: perceptron_handle_event_def registry_effect_def)
qed

lemma switch_handle_event_effect:
  assumes "switch_handle_event k ev sw g conns = Inr (h, sw', g', conns')"
  shows "conns' = conns \<and> (gstate_inv g \<longrightarrow> gstate_inv g') \<and> (\<not> h \<longrightarrow> sw' = sw \<and> g' = g)"
  using assms
  by (cases ev) (auto simp: switch_handle_event_def gstate_inv_def split: if_splits)

lemma DraggableObject_handle_event_light:
  assumes "DraggableObject_handle_event light_update_node_positions ev l = (h, l')"
  shows "light.input_connections l' = light.input_connections l \<and>
         light.num_inputs l' = light.num_inputs l \<and> (\<not> h \<longrightarrow> l' = l)"
  using assms
  by (cases ev)
     (auto simp: DraggableObject_handle_event_def light_update_node_positions_def Let_def
           split: if_splits)

lemma light_node_click_effect:
  assumes "light_node_click k pt b l g conns = Inr (h, l', g', conns')"
  shows "light.num_inputs l' = light.num_inputs l \<and>
         length (light.input_connections l') = length (light.input_connections l) \<and>
         g' = g \<and> is_dragging l' = is_dragging l \<and>
         registry_effect k (light.input_connections l) conns (light.input_connections l') conns' \<and>
         (\<not> h \<longrightarrow> l' = l \<and> conns' = conns)"
proof (cases "b = 3 \<and> light.input_connections l \<noteq> [] \<and> light.input_connections l ! 0 \<noteq> None")
  case True
  with assms have r: "h" "g' = g" "conns' = remove_connection k 0 conns"
      "l' = l\<lparr>light.input_connections := (light.input_connections l)[0 := None]\<rparr>"
    by (auto simp: light_node_click_def)
  from True have "0 < length (light.input_connections l)" by simp
  from registry_effect_clear[OF this, of k conns] r show ?thesis by simp
next
  case False
  with assms show ?thesis
    by (auto simp: light_node_click_def registry_effect_same split: if_splits)
qed

lemma light_handle_event_effect:
  assumes "light_handle_event k ev l g conns = Inr (h, l', g', conns')"
  shows "light.num_inputs l' = light.num_inputs l \<and>
         length (light.input_connections l') = length (light.input_connections l) \<and>
         g' = g \<and>
         registry_effect k (light.input_connections l) conns (light.input_connections l') conns' \<and>
         (\<not> h \<longrightarrow> l' = l \<and> conns' = conns)"
proof (cases "DraggableObject_handle_event light_update_node_positions ev l")
  case (Pair h0 l0)
  note d = DraggableObject_handle_event_light[OF Pair]
  show ?thesis
  proof (cases h0)
    case True
    with Pair assms d show ?thesis
      by (simp add: light_handle_event_def registry_effect_def)
  next
    case False
    with d have l0: "l0 = l" by simp
    show ?thesis
    proof (cases "\<exists>pt b nr. ev = MOUSEBUTTONDOWN pt b \<and> light_get_input_node_rect l 0 = Some nr
                     \<and> rect_truthy nr \<and> collidepoint nr pt")
      case True
      then obtain pt b nr where "ev = MOUSEBUTTONDOWN pt b" "light_get_input_node_rect l 0 = Some nr"
          "rect_truthy nr \<and> collidepoint nr pt" by blast
      with Pair False l0 assms have "light_node_click k pt b l g conns = Inr (h, l', g', conns')"
        by (simp add: light_handle_event_def)
      from light_node_click_effect[OF this] show ?thesis by simp
    next
      case F: False
      with Pair False l0 assms have "h = False \<and> l' = l \<and> g' = g \<and> conns' = conns"
        by (cases ev) (auto simp: light_handle_event_def split: option.splits if_splits)
      then show ?thesis by (simp add: registry_effect_def)
    qed
  qed
qed

subsection \<open>Preservation of the scene invariants\<close>

lemma scene_update_inv:
  assumes inv: "scene_inv s" and k: "k < length (all_objects s)" and e: "entity_inv e'"
    and eff: "registry_effect k (entity_slots (all_objects s ! k)) (connections s)
                              (entity_slots e') conns'"
    and g: "gstate_inv g'"
  shows "scene_inv (s\<lparr>all_objects := (all_objects s)[k := e'], connections := conns',
                      global_connection_state := g'\<rparr>)"
proof -
  have "\<forall>x\<in>set ((all_objects s)[k := e']). entity_inv x"
    using inv e set_update_subset_insert[of "all_objects s" k e']
    by (auto simp: scene_inv_def)
  moreover have "unique_targets conns'"
    using registry_effect_unique[OF eff] inv by (simp add: scene_inv_def)
  moreover have "slots_registered ((all_objects s)[k := e']) conns'"
    using registry_effect_registered[OF eff k] inv by (simp add: scene_inv_def)
  ultimately show ?thesis using g by (simp add: scene_inv_def)
qed

lemma entity_handle_event_inv:
  assumes step: "entity_handle_event r k ev s = Inr (h, s')"
    and k: "k < length (all_objects s)" and inv: "scene_inv s"
  shows "scene_inv s' \<and> length (all_objects s') = length (all_objects s) \<and>
         (\<not> h \<longrightarrow> s' = s) \<and>
         (\<forall>m. m \<noteq> k \<longrightarrow> all_objects s' ! m = all_objects s ! m)"
proof -
  let ?g = "global_connection_state s" and ?c = "connections s"
  have ginv: "gstate_inv ?g" using inv by (simp add: scene_inv_def)
  have einv: "entity_inv (all_objects s ! k)" using inv k by (simp add: scene_inv_def)
  have res: "\<exists>e' g' conns'.
      s' = s\<lparr>all_objects := (all_objects s)[k := e'], connections := conns',
              global_connection_state := g'\<rparr> \<and>
      entity_inv e' \<and> gstate_inv g' \<and>
      registry_effect k (entity_slots (all_objects s ! k)) ?c (entity_slots e') conns' \<and>
      (\<not> h \<longrightarrow> e' = all_objects s ! k \<and> g' = ?g \<and> conns' = ?c)"
  proof (cases "all_objects s ! k")
    case (Switch sw)
    with step obtain sw' g' conns' where
      r: "switch_handle_event k ev sw ?g ?c = Inr (h, sw', g', conns')"
         "s' = s\<lparr>all_objects := (all_objects s)[k := Switch sw'], connections := conns',
              global_connection_state := g'\<rparr>"
      by (auto simp: entity_handle_event_def Let_def split: sum.splits)
    from switch_handle_event_effect[OF r(1)] ginv r(2) Switch show ?thesis
      by (intro exI[of _ "Switch sw'"] exI[of _ g'] exI[of _ conns'])
         (simp add: registry_effect_same)
  next
    case (Perceptron p)
    with step obtain p' g' conns' where
      r: "perceptron_handle_event r k ev p ?g ?c = Inr (h, p', g', conns')"
         "s' = s\<lparr>all_objects := (all_objects s)[k := Perceptron p'], connections := conns',
              global_connection_state := g'\<rparr>"
      by (auto simp: entity_handle_event_def Let_def split: sum.splits)
    from einv Perceptron have "perceptron_inv p" by simp
    from perceptron_handle_event_effect[OF r(1) this] ginv r(2) Perceptron show ?thesis
      by (intro exI[of _ "Perceptron p'"] exI[of _ g'] exI[of _ conns']) simp
  next
    case (Light l)
    with step obtain l' g' conns' where
      r: "light_handle_event k ev l ?g ?c = Inr (h, l', g', conns')"
         "s' = s\<lparr>all_objects := (all_objects s)[k := Light l'], connections := conns',
              global_connection_state := g'\<rparr>"
      by (auto simp: entity_handle_event_def Let_def split: sum.splits)
    from light_handle_event_effect[OF r(1)] ginv einv r(2) Light show ?thesis
      by (intro exI[of _ "Light l'"] exI[of _ g'] exI[of _ conns']) simp
  qed
  then obtain e' g' conns' where
    s': "s' = s\<lparr>all_objects := (all_objects s)[k := e'], connections := conns',
              global_connection_state := g'\<rparr>"
    and e': "entity_inv e'" and g': "gstate_inv g'"
    and eff: "registry_effect k (entity_slots (all_objects s ! k)) ?c (entity_slots e') conns'"
    and unh: "\<not> h \<longrightarrow> e' = all_objects s ! k \<and> g' = ?g \<and> conns' = ?c"
    by blast
  have "scene_inv s'" unfolding s' by (rule scene_update_inv[OF inv k e' eff g'])
  moreover have "\<not> h \<longrightarrow> s' = s" using unh s' by auto
  ultimately show ?thesis using s' by simp
qed

lemma dispatch_inv:
  assumes "dispatch r ev k s = Inr s'" "k \<le> length (all_objects s)" "scene_inv s"
  shows "scene_inv s' \<and> length (all_objects s') = length (all_objects s) \<and>
         (\<exists>j. \<forall>m. m \<noteq> j \<longrightarrow> all_objects s' ! m = all_objects s ! m)"
  using assms
proof (induction k arbitrary: s)
  case 0
  then show ?case by simp
next
  case (Suc k)
  from Suc.prems(1) obtain h s1 where
    e: "entity_handle_event r k ev s = Inr (h, s1)"
    and rest: "if h then s' = s1 else dispatch r ev k s1 = Inr s'"
    by (auto split: sum.splits if_splits)
  from Suc.prems(2) have k: "k < length (all_objects s)" by simp
  note i = entity_handle_event_inv[OF e k Suc.prems(3)]
  show ?case
  proof (cases h)
    case True
    with rest i show ?thesis by auto
  next
    case False
    with i have "s1 = s" by simp
    with rest False have "dispatch r ev k s = Inr s'" by simp
    from Suc.IH[OF this _ Suc.prems(3)] k show ?thesis by simp
  qed
qed

lemma existing_conn_idx_Some:
  "existing_conn_idx t i conns = Some k \<Longrightarrow> k < length conns \<and> conn_matches t i (conns ! k)"
  by (induction conns arbitrary: k) (auto split: if_splits)

lemma existing_conn_idx_None:
  "existing_conn_idx t i conns = None \<Longrightarrow> \<forall>c\<in>set conns. \<not> conn_matches t i c"
  by (induction conns) (auto split: if_splits)

lemma conn_target_source_update [simp]:
  "conn_target (c\<lparr>source_obj := src\<rparr>) = conn_target c"
  by (simp add: conn_target_def)

lemma conn_matches_source_update [simp]:
  "conn_matches t i (c\<lparr>source_obj := src\<rparr>) = conn_matches t i c"
  by (simp add: conn_matches_def)

lemma map_conn_target_update:
  "k < length conns \<Longrightarrow>
   map conn_target (conns[k := (conns ! k)\<lparr>source_obj := src\<rparr>]) = map conn_target conns"
  by (simp add: map_update list_update_same_conv)

lemma add_or_update_targets:
  "set (map conn_target (add_or_update_connection src t i conns))
     = insert (t, i) (set (map conn_target conns))"
proof (cases "existing_conn_idx t i conns")
  case None
  then show ?thesis by (simp add: add_or_update_connection_def conn_target_def)
next
  case (Some k)
  from existing_conn_idx_Some[OF Some] have k: "k < length conns" "conn_matches t i (conns ! k)"
    by simp_all
  then have "(t, i) \<in> set (map conn_target conns)"
    by (auto simp: conn_matches_target intro!: image_eqI[of _ _ "conns ! k"])
  with Some k show ?thesis
    using map_conn_target_update[OF k(1), of src]
    by (simp add: add_or_update_connection_def del: set_map) auto
qed

lemma add_or_update_unique:
  assumes "unique_targets conns"
  shows "unique_targets (add_or_update_connection src t i conns)"
proof (cases "existing_conn_idx t i conns")
  case None
  from existing_conn_idx_None[OF None] have "(t, i) \<notin> set (map conn_target conns)"
    by (auto simp: conn_matches_target)
  with None assms show ?thesis
    by (simp add: add_or_update_connection_def unique_targets_def conn_target_def)
next
  case (Some k)
  from existing_conn_idx_Some[OF Some] have k: "k < length conns" by simp
  with Some assms show ?thesis
    by (simp add: add_or_update_connection_def unique_targets_def map_conn_target_update)
qed

lemma add_or_update_has_entry:
  "(\<exists>c\<in>set (add_or_update_connection src t i conns). conn_matches t' i' c)
     \<longleftrightarrow> (t', i') = (t, i) \<or> (\<exists>c\<in>set conns. conn_matches t' i' c)"
proof -
  have "(\<exists>c\<in>set cs. conn_matches t' i' c) \<longleftrightarrow> (t', i') \<in> set (map conn_target cs)" for cs
    by (force simp: conn_matches_target)
  then show ?thesis by (simp only: add_or_update_targets) auto
qed

lemma scan_inputs_slot:
  assumes "scan_inputs e pt = Some i" "entity_inv e"
  shows "i < length (entity_slots e)"
proof (cases e)
  case (Switch s)
  with assms show ?thesis by simp
next
  case (Perceptron p)
  with assms have "i \<in> set [0 ..< nat (perceptron.num_inputs p)]"
    by (auto simp: find_Some_iff)
  with assms(2) Perceptron show ?thesis by (auto simp: perceptron_inv_def)
next
  case (Light l)
  with assms have "i \<in> set [0 ..< nat (light.num_inputs l)]"
    by (auto simp: find_Some_iff)
  with assms(2) Light show ?thesis by auto
qed

lemma find_target_from_Some:
  "find_target_from k objs pt = Some (t, i) \<Longrightarrow>
   k \<le> t \<and> t - k < length objs \<and> scan_inputs (objs ! (t - k)) pt = Some i"
proof (induction objs arbitrary: k)
  case Nil
  then show ?case by simp
next
  case (Cons obj objs)
  show ?case
  proof (cases "scan_inputs obj pt")
    case None
    with Cons.prems have "find_target_from (Suc k) objs pt = Some (t, i)" by simp
    from Cons.IH[OF this] show ?thesis by (auto simp: Suc_diff_le)
  next
    case (Some j)
    with Cons.prems show ?thesis by simp
  qed
qed

lemma find_target_Some:
  "find_target objs pt = Some (t, i) \<Longrightarrow> t < length objs \<and> scan_inputs (objs ! t) pt = Some i"
  using find_target_from_Some[of 0 objs pt t i] by (simp add: find_target_def)

lemma connect_input_props:
  "entity_inv (connect_input e i src) = entity_inv e"
  "entity_dragging (connect_input e i src) = entity_dragging e"
  "entity_slots (connect_input e i src)
     = (if i < length (entity_slots e) then (entity_slots e)[i := Some src] else entity_slots e)"
  by (cases e; simp add: perceptron_inv_def)+

lemma finalize_connection_inv:
  assumes fin: "finalize_connection pt s = Inr s'" and inv: "scene_inv s"
  shows "scene_inv s' \<and> length (all_objects s') = length (all_objects s) \<and>
         map entity_dragging (all_objects s') = map entity_dragging (all_objects s)"
proof (cases "find_target (all_objects s) pt")
  case None
  with fin have "s' = s\<lparr>global_connection_state := reset_gstate\<rparr>"
    by (simp add: finalize_connection_def)
  with inv show ?thesis by (simp add: scene_inv_def gstate_inv_def reset_gstate_def)
next
  case (Some ti)
  obtain t i where ti: "ti = (t, i)" by (cases ti)
  let ?objs = "all_objects s" and ?conns = "connections s"
  from Some ti fin obtain src where
    s': "s' = s\<lparr>all_objects := ?objs[t := connect_input (?objs ! t) i src],
                 connections := add_or_update_connection src t i ?conns,
                 global_connection_state := reset_gstate\<rparr>"
    by (auto simp: finalize_connection_def split: option.splits)
  from find_target_Some Some ti have t: "t < length ?objs"
    and sc: "scan_inputs (?objs ! t) pt = Some i" by auto
  let ?e' = "connect_input (?objs ! t) i src"
  let ?objs' = "?objs[t := ?e']"
  let ?conns' = "add_or_update_connection src t i ?conns"
  have e1: "\<forall>x\<in>set ?objs'. entity_inv x"
    using inv t set_update_subset_insert[of ?objs t ?e']
    by (auto simp: scene_inv_def connect_input_props)
  have e2: "unique_targets ?conns'"
    using inv by (simp add: scene_inv_def add_or_update_unique)
  have e3: "slots_registered ?objs' ?conns'"
    unfolding slots_registered_def
  proof (intro allI impI)
    fix t' i'
    assume a: "t' < length ?objs'" "i' < length (entity_slots (?objs' ! t'))"
              "entity_slots (?objs' ! t') ! i' \<noteq> None"
    show "\<exists>c\<in>set ?conns'. conn_matches t' i' c"
    proof (cases "(t', i') = (t, i)")
      case True
      then show ?thesis by (simp only: add_or_update_has_entry) simp
    next
      case False
      have "i' < length (entity_slots (?objs ! t')) \<and> entity_slots (?objs ! t') ! i' \<noteq> None"
      proof (cases "t' = t")
        case True
        with False have "i' \<noteq> i" by simp
        with a True t show ?thesis
          by (auto simp: connect_input_props split: if_splits)
      next
        case F: False
        with a show ?thesis by simp
      qed
      with a(1) inv have "\<exists>c\<in>set ?conns. conn_matches t' i' c"
        by (simp add: scene_inv_def slots_registered_def)
      then show ?thesis by (simp only: add_or_update_has_entry) simp
    qed
  qed
  have e4: "map entity_dragging ?objs' = map entity_dragging ?objs"
    using t by (simp add: map_update connect_input_props list_update_same_conv)
  from e1 e2 e3 e4 s' show ?thesis
    by (simp add: scene_inv_def gstate_inv_def reset_gstate_def)
qed

lemma same_structure_refl: "same_structure objs objs"
  by (simp add: same_structure_def)

lemma same_structure_trans:
  "same_structure a b \<Longrightarrow> same_structure b c \<Longrightarrow> same_structure a c"
  by (simp add: same_structure_def)

lemma same_structure_update:
  assumes "k < length objs" "entity_slots e' = entity_slots (objs ! k)"
    "entity_dragging e' = entity_dragging (objs ! k)" "entity_inv (objs ! k) \<longrightarrow> entity_inv e'"
  shows "same_structure objs (objs[k := e'])"
proof -
  have "(\<forall>e\<in>set objs. entity_inv e) \<longrightarrow> (\<forall>e\<in>set (objs[k := e']). entity_inv e)"
    using assms(1,4) set_update_subset_insert[of objs k e'] by auto
  with assms show ?thesis
    by (simp add: same_structure_def map_update list_update_same_conv)
qed

lemma calculate_output_props:
  "perceptron.input_connections (calculate_output objs p) = perceptron.input_connections p"
  "is_dragging (calculate_output objs p) = is_dragging p"
  by (simp_all add: calculate_output_def Let_def)

lemma calculate_output_inv:
  "perceptron_inv p \<Longrightarrow> perceptron_inv (calculate_output objs p)"
  by (auto simp: calculate_output_def Let_def perceptron_inv_def)

lemma calculate_at_structure:
  "k < length objs \<Longrightarrow> same_structure objs (calculate_at objs k)"
proof (cases "objs ! k")
  case (Perceptron p)
  assume "k < length objs"
  from same_structure_update[OF this, of "Perceptron (calculate_output objs p)"] Perceptron
  show ?thesis by (simp add: calculate_at_def calculate_output_props calculate_output_inv)
qed (simp_all add: calculate_at_def same_structure_refl)

lemma foldl_calculate_at_structure:
  "n \<le> length objs \<Longrightarrow> same_structure objs (foldl calculate_at objs [0 ..< n])"
proof (induction n)
  case 0
  then show ?case by (simp add: same_structure_refl)
next
  case (Suc n)
  then have ih: "same_structure objs (foldl calculate_at objs [0 ..< n])" by simp
  then have "n < length (foldl calculate_at objs [0 ..< n])"
    using Suc.prems by (simp add: same_structure_def)
  from calculate_at_structure[OF this] ih show ?case
    by (auto intro: same_structure_trans)
qed

lemma perceptron_pass_structure: "same_structure objs (perceptron_pass objs)"
  by (simp add: perceptron_pass_def foldl_calculate_at_structure)

lemma update_state_props:
  "update_state objs l = Inr l' \<Longrightarrow>
   light.input_connections l' = light.input_connections l \<and> is_dragging l' = is_dragging l \<and>
   light.num_inputs l' = light.num_inputs l"
  by (auto simp: update_state_def split: if_splits option.splits)

lemma light_pass_structure:
  "light_pass ks objs = Inr objs' \<Longrightarrow> \<forall>k\<in>set ks. k < length objs \<Longrightarrow> same_structure objs objs'"
proof (induction ks arbitrary: objs)
  case Nil
  then show ?case by (simp add: same_structure_refl)
next
  case (Cons k ks)
  from Cons.prems(2) have k: "k < length objs" by simp
  show ?case
  proof (cases "objs ! k")
    case (Light l)
    with Cons.prems(1) obtain l' where u: "update_state objs l = Inr l'"
      and rest: "light_pass ks (objs[k := Light l']) = Inr objs'"
      by (auto split: sum.splits)
    from same_structure_update[OF k, of "Light l'"] update_state_props[OF u] Light
    have 1: "same_structure objs (objs[k := Light l'])" by simp
    from Cons.IH[OF rest] Cons.prems(2) have "same_structure (objs[k := Light l']) objs'" by simp
    with 1 show ?thesis by (rule same_structure_trans)
  next
    case (Switch sw)
    with Cons.prems have "light_pass ks objs = Inr objs'" by simp
    from Cons.IH[OF this] Cons.prems(2) show ?thesis by simp
  next
    case (Perceptron p)
    with Cons.prems have "light_pass ks objs = Inr objs'" by simp
    from Cons.IH[OF this] Cons.prems(2) show ?thesis by simp
  qed
qed

lemma slots_registered_cong:
  assumes "map entity_slots objs' = map entity_slots objs" "slots_registered objs conns"
  shows "slots_registered objs' conns"
proof -
  from assms(1) have l: "length objs' = length objs" by (rule map_eq_imp_length_eq)
  have "entity_slots (objs' ! t) = entity_slots (objs ! t)" if "t < length objs" for t
    using arg_cong[OF assms(1), of "\<lambda>xs. xs ! t"] that l by simp
  with assms(2) l show ?thesis by (simp add: slots_registered_def)
qed

lemma tick_inv:
  assumes "tick s = Inr s'" "scene_inv s"
  shows "scene_inv s' \<and> same_structure (all_objects s) (all_objects s') \<and>
         connections s' = connections s \<and>
         global_connection_state s' = global_connection_state s"
proof -
  let ?o1 = "perceptron_pass (all_objects s)"
  from assms(1) obtain objs' where lp: "light_pass [0 ..< length ?o1] ?o1 = Inr objs'"
    and s': "s' = s\<lparr>all_objects := objs'\<rparr>"
    by (auto simp: tick_def Let_def split: sum.splits)
  from light_pass_structure[OF lp] have "same_structure ?o1 objs'" by simp
  with perceptron_pass_structure[of "all_objects s"]
  have ss: "same_structure (all_objects s) objs'" by (rule same_structure_trans)
  then have "slots_registered objs' (connections s)"
    using assms(2) by (auto simp: same_structure_def scene_inv_def intro: slots_registered_cong)
  with ss assms(2) s' show ?thesis
    by (simp add: scene_inv_def same_structure_def)
qed

lemma process_event_cases:
  assumes "process_event r ev s = Inr s'"
  shows "\<exists>s0. (s0 = s \<or> s0 = s\<lparr>running := False\<rparr>) \<and>
           ((\<exists>pt. finalize_connection pt s0 = Inr s') \<or>
            dispatch r ev (length (all_objects s0)) s0 = Inr s')"
proof (cases ev)
  case (MOUSEBUTTONUP pt b)
  show ?thesis
  proof (cases "is_drawing_connection (global_connection_state s)")
    case True
    with assms MOUSEBUTTONUP have "finalize_connection pt s = Inr s'"
      by (simp add: process_event_def)
    then show ?thesis by blast
  next
    case False
    with assms MOUSEBUTTONUP have "dispatch r ev (length (all_objects s)) s = Inr s'"
      by (simp add: process_event_def)
    then show ?thesis by blast
  qed
next
  case (MOUSEBUTTONDOWN pt b)
  with assms have "dispatch r ev (length (all_objects s)) s = Inr s'"
    by (simp add: process_event_def)
  then show ?thesis by blast
next
  case (MOUSEMOTION pt)
  with assms have "dispatch r ev (length (all_objects s)) s = Inr s'"
    by (simp add: process_event_def)
  then show ?thesis by blast
next
  case QUIT
  with assms have "dispatch r ev (length (all_objects (s\<lparr>running := False\<rparr>)))
                     (s\<lparr>running := False\<rparr>) = Inr s'"
    by (simp add: process_event_def)
  then show ?thesis by blast
next
  case OTHER
  with assms have "dispatch r ev (length (all_objects s)) s = Inr s'"
    by (simp add: process_event_def)
  then show ?thesis by blast
qed

lemma process_event_inv:
  assumes step: "process_event r ev s = Inr s'" and inv: "scene_inv s"
  shows "scene_inv s' \<and> length (all_objects s') = length (all_objects s) \<and>
         (\<exists>j. \<forall>m<length (all_objects s). m \<noteq> j \<longrightarrow>
            entity_dragging (all_objects s' ! m) = entity_dragging (all_objects s ! m))"
proof -
  from process_event_cases[OF step] obtain s0 where
    s0: "s0 = s \<or> s0 = s\<lparr>running := False\<rparr>" and
    alt: "(\<exists>pt. finalize_connection pt s0 = Inr s') \<or>
            dispatch r ev (length (all_objects s0)) s0 = Inr s'" by blast
  have inv0: "scene_inv s0" using inv s0 by (auto simp: scene_inv_def)
  have o0: "all_objects s0 = all_objects s" using s0 by auto
  from alt show ?thesis
  proof
    assume "\<exists>pt. finalize_connection pt s0 = Inr s'"
    then obtain pt where fin: "finalize_connection pt s0 = Inr s'" ..
    from finalize_connection_inv[OF fin inv0]
    have a: "scene_inv s'" and b: "length (all_objects s') = length (all_objects s0)"
      and c: "map entity_dragging (all_objects s') = map entity_dragging (all_objects s0)"
      by simp_all
    have "entity_dragging (all_objects s' ! m) = entity_dragging (all_objects s ! m)"
      if "m < length (all_objects s)" for m
      using arg_cong[OF c, of "\<lambda>xs. xs ! m"] b that by (simp add: o0)
    with a b show ?thesis by (simp add: o0)
  next
    assume d: "dispatch r ev (length (all_objects s0)) s0 = Inr s'"
    have le: "length (all_objects s0) \<le> length (all_objects s0)" by simp
    from dispatch_inv[OF d le inv0]
    obtain j where a: "scene_inv s'" "length (all_objects s') = length (all_objects s0)"
      "\<forall>m. m \<noteq> j \<longrightarrow> all_objects s' ! m = all_objects s0 ! m" by blast
    from a(3) have "\<forall>m<length (all_objects s). m \<noteq> j \<longrightarrow>
        entity_dragging (all_objects s' ! m) = entity_dragging (all_objects s ! m)"
      by (simp add: o0)
    with a(1,2) show ?thesis unfolding o0 by blast
  qed
qed

lemma Perceptron_init_inv:
  assumes "Perceptron_init rnd x y n None b = Inr p" "n \<le> 8"
  shows "perceptron_inv p \<and> set (perceptron.input_connections p) \<subseteq> {None}"
proof -
  let ?q = "\<lparr>rect = mk_Rect x y 60 80, is_dragging = False, drag_offset_x = 0, drag_offset_y = 0,
             perceptron.num_inputs = max 1 n,
             weights = map rnd [0 ..< nat (max 1 n)],
             bias = (case b of None \<Rightarrow> rnd (nat (max 1 n)) | Some v \<Rightarrow> v),
             perceptron.output_value = 0,
             input_values = replicate (nat (max 1 n)) 0,
             perceptron.input_connections = replicate (nat (max 1 n)) None,
             plus_button_rect = mk_Rect 0 0 button_size button_size,
             minus_button_rect = mk_Rect 0 0 button_size button_size,
             perceptron.input_nodes_pos = [],
             perceptron.output_node_pos = (0, 0),
             perceptron.input_node_rects = [],
             perceptron.output_node_rect = mk_Rect 0 0 0 0\<rparr>"
  from assms(1) have u: "perceptron_update_node_positions ?q = Inr p"
    by (simp add: Perceptron_init_def Let_def)
  have "perceptron_inv ?q" using assms(2) by (simp add: perceptron_inv_def)
  with update_node_positions_inv[OF u] have 1: "perceptron_inv p" by simp
  from update_node_positions_fields[OF u]
  have "perceptron.input_connections p = replicate (nat (max 1 n)) None" by simp
  with 1 show ?thesis by simp
qed

lemma Light_init_slots:
  "light.num_inputs (Light_init x y) = 1"
  "light.input_connections (Light_init x y) = [None]"
  by (simp_all add: Light_init_def light_update_node_positions_def)

lemma init_scene_cases:
  assumes "init_scene rnd = Inr s"
  shows "\<exists>p1 p2. Perceptron_init rnd 200 100 2 None None = Inr p1 \<and>
           Perceptron_init (\<lambda>k. rnd (k + 3)) 400 200 1 None None = Inr p2 \<and>
           s = \<lparr>all_objects = [Switch (Switch_init 50 50), Switch (Switch_init 50 150),
                                   Perceptron p1, Perceptron p2,
                                   Light (Light_init 600 100), Light (Light_init 600 250)],
                    connections = [],
                    global_connection_state = reset_gstate,
                    running = True\<rparr>"
proof (cases "Perceptron_init rnd 200 100 2 None None")
  case (Inl e)
  with assms show ?thesis by (simp add: init_scene_def)
next
  case p1: (Inr p1)
  show ?thesis
  proof (cases "Perceptron_init (\<lambda>k. rnd (k + 3)) 400 200 1 None None")
    case (Inl e)
    with assms p1 show ?thesis by (simp add: init_scene_def)
  next
    case (Inr p2)
    with assms p1 show ?thesis by (simp add: init_scene_def)
  qed
qed

lemma no_slots_registered:
  assumes "\<forall>e\<in>set objs. set (entity_slots e) \<subseteq> {None}"
  shows "slots_registered objs conns"
  unfolding slots_registered_def
proof (intro allI impI)
  fix t i assume t: "t < length objs" and i: "i < length (entity_slots (objs ! t))"
    and occ: "entity_slots (objs ! t) ! i \<noteq> None"
  from t have "objs ! t \<in> set objs" by simp
  with assms have "set (entity_slots (objs ! t)) \<subseteq> {None}" by blast
  moreover from i have "entity_slots (objs ! t) ! i \<in> set (entity_slots (objs ! t))" by simp
  ultimately have "entity_slots (objs ! t) ! i = None" by blast
  with occ show "\<exists>c\<in>set conns. conn_matches t i c" by simp
qed

lemma init_scene_inv:
  assumes "init_scene rnd = Inr s"
  shows "scene_inv s"
proof -
  from init_scene_cases[OF assms] obtain p1 p2 where
    p1: "Perceptron_init rnd 200 100 2 None None = Inr p1" and
    p2: "Perceptron_init (\<lambda>k. rnd (k + 3)) 400 200 1 None None = Inr p2" and
    s: "s = \<lparr>all_objects = [Switch (Switch_init 50 50), Switch (Switch_init 50 150),
                                   Perceptron p1, Perceptron p2,
                                   Light (Light_init 600 100), Light (Light_init 600 250)],
                    connections = [],
                    global_connection_state = reset_gstate,
                    running = True\<rparr>"
    by blast
  have i1: "perceptron_inv p1" "set (perceptron.input_connections p1) \<subseteq> {None}"
    using Perceptron_init_inv[OF p1] by simp_all
  have i2: "perceptron_inv p2" "set (perceptron.input_connections p2) \<subseteq> {None}"
    using Perceptron_init_inv[OF p2] by simp_all
  have none: "\<forall>e\<in>set (all_objects s). set (entity_slots e) \<subseteq> {None}"
    using i1(2) i2(2) by (simp add: s Light_init_slots)
  have einv: "\<forall>e\<in>set (all_objects s). entity_inv e"
    using i1(1) i2(1) by (simp add: s Light_init_slots)
  have "unique_targets (connections s)" by (simp add: s unique_targets_def)
  moreover have "gstate_inv (global_connection_state s)"
    by (simp add: s gstate_inv_def reset_gstate_def)
  moreover have "slots_registered (all_objects s) (connections s)"
    using none by (rule no_slots_registered)
  ultimately show ?thesis using einv by (simp add: scene_inv_def)
qed

lemma reachable_scene_inv: "reachable s \<Longrightarrow> scene_inv s"
proof (induction rule: reachable.induct)
  case (reachable_init rnd s)
  then show ?case by (rule init_scene_inv)
next
  case (reachable_event s r ev s')
  from process_event_inv[OF reachable_event(2) reachable_event(3)] show ?case by simp
next
  case (reachable_tick s s')
  from tick_inv[OF reachable_tick(2) reachable_tick(3)] show ?case by simp
qed

subsection \<open>Evaluating pointer events on a concrete scene\<close>

lemma first_hit_None: "\<forall>r\<in>set rs. \<not> collidepoint r pt \<Longrightarrow> first_hit rs pt = None"
  by (induction rs) simp_all

lemma switch_miss_down:
  "\<forall>r\<in>set (entity_rects (Switch sw)). \<not> collidepoint r pt \<Longrightarrow>
   switch_handle_event k (MOUSEBUTTONDOWN pt b) sw g conns = Inr (False, sw, g, conns)"
  by (simp add: switch_handle_event_def)

lemma perceptron_miss_down:
  "\<forall>r\<in>set (entity_rects (Perceptron p)). \<not> collidepoint r pt \<Longrightarrow>
   perceptron_handle_event r k (MOUSEBUTTONDOWN pt b) p g conns = Inr (False, p, g, conns)"
  by (simp add: perceptron_handle_event_def perceptron_right_click_def
        perceptron_left_click_def first_hit_None)

lemma light_miss_down:
  "\<forall>r\<in>set (entity_rects (Light l)). \<not> collidepoint r pt \<Longrightarrow>
   light_handle_event k (MOUSEBUTTONDOWN pt b) l g conns = Inr (False, l, g, conns)"
  by (auto simp: light_handle_event_def DraggableObject_handle_event_def
        light_get_input_node_rect_def neq_Nil_conv split: option.splits)

lemma entity_miss_down:
  assumes k: "k < length (all_objects s)"
    and miss: "\<forall>r\<in>set (entity_rects (all_objects s ! k)). \<not> collidepoint r pt"
  shows "entity_handle_event r k (MOUSEBUTTONDOWN pt b) s = Inr (False, s)"
proof (cases "all_objects s ! k")
  case (Switch sw)
  then have id: "(all_objects s)[k := Switch sw] = all_objects s"
    by (metis list_update_id)
  from Switch miss switch_miss_down[of sw pt k b] show ?thesis
    by (simp add: entity_handle_event_def Let_def id)
next
  case (Perceptron p)
  then have id: "(all_objects s)[k := Perceptron p] = all_objects s"
    by (metis list_update_id)
  from Perceptron miss perceptron_miss_down[of p pt r k b] show ?thesis
    by (simp add: entity_handle_event_def Let_def id)
next
  case (Light l)
  then have id: "(all_objects s)[k := Light l] = all_objects s"
    by (metis list_update_id)
  from Light miss light_miss_down[of l pt k b] show ?thesis
    by (simp add: entity_handle_event_def Let_def id)
qed

lemma dispatch_first_handler:
  assumes "j < n"
    and "\<forall>k. j < k \<and> k < n \<longrightarrow> entity_handle_event r k ev s = Inr (False, s)"
    and "entity_handle_event r j ev s = Inr (True, s')"
  shows "dispatch r ev n s = Inr s'"
  using assms
proof (induction n)
  case 0
  then show ?case by simp
next
  case (Suc n)
  show ?case
  proof (cases "j = n")
    case True
    with Suc.prems(3) show ?thesis by simp
  next
    case False
    with Suc.prems(1) have jn: "j < n" by simp
    with Suc.prems(2) have "entity_handle_event r n ev s = Inr (False, s)" by simp
    moreover from Suc.IH[OF jn _ Suc.prems(3)] Suc.prems(2) have "dispatch r ev n s = Inr s'"
      by simp
    ultimately show ?thesis by simp
  qed
qed

lemma down_dispatch_hit:
  assumes j: "j < length (all_objects s)"
    and miss: "\<forall>k. j < k \<and> k < length (all_objects s) \<longrightarrow>
                 (\<forall>r\<in>set (entity_rects (all_objects s ! k)). \<not> collidepoint r pt)"
    and hit: "entity_handle_event r j (MOUSEBUTTONDOWN pt b) s = Inr (True, s')"
  shows "process_event r (MOUSEBUTTONDOWN pt b) s = Inr s'"
proof -
  have "\<forall>k. j < k \<and> k < length (all_objects s) \<longrightarrow>
          entity_handle_event r k (MOUSEBUTTONDOWN pt b) s = Inr (False, s)"
    using miss entity_miss_down by blast
  from dispatch_first_handler[OF j this hit] show ?thesis
    by (simp add: process_event_def)
qed

lemma Perceptron_init_total: "\<exists>p. Perceptron_init rnd x y n None b = Inr p"
  by (simp add: Perceptron_init_def Let_def perceptron_update_node_positions_def)

lemma perceptron1_init: "Perceptron_init zero_rnd 200 100 2 None None = Inr perceptron1"
  using Perceptron_init_total[of zero_rnd 200 100 2 None]
  by (auto simp: perceptron1_def perceptron_of_def)

lemma perceptron2_init:
  "Perceptron_init (\<lambda>k. zero_rnd (k + 3)) 400 200 1 None None = Inr perceptron2"
  using Perceptron_init_total[of "\<lambda>k. zero_rnd (k + 3)" 400 200 1 None]
  by (auto simp: perceptron2_def)

lemma scene0_init:
  "init_scene zero_rnd = Inr scene0"
  "scene0 = \<lparr>all_objects = [Switch switch1, Switch switch2, Perceptron perceptron1,
                            Perceptron perceptron2, Light light1, Light light2],
             connections = [], global_connection_state = reset_gstate, running = True\<rparr>"
  by (simp_all add: scene0_def init_scene_def perceptron1_init perceptron2_init
        switch1_def switch2_def light1_def light2_def)

lemma upt2: "[0 ..< 2::nat] = [0, 1]" by (simp add: upt_rec)

lemma switch_rects:
  "entity_rects (Switch switch1) = [mk_Rect 50 50 40 40, mk_Rect 58 58 24 24, mk_Rect 90 64 12 12]"
  "entity_rects (Switch switch2) = [mk_Rect 50 150 40 40, mk_Rect 58 158 24 24, mk_Rect 90 164 12 12]"
  by (simp_all add: switch1_def switch2_def Switch_init_def switch_update_node_positions_def
        Let_def mk_Rect_def rect_right_def rect_centery_def node_rect_def set_topleft_def
        output_node_radius_def toggle_margin_def)

lemma light_rects:
  "entity_rects (Light light1) = [mk_Rect 580 80 40 40, mk_Rect 570 95 10 10]"
  "entity_rects (Light light2) = [mk_Rect 580 230 40 40, mk_Rect 570 245 10 10]"
  by (simp_all add: light1_def light2_def Light_init_def light_update_node_positions_def
        Let_def mk_Rect_def rect_centery_def node_rect_def input_node_radius_def)

lemma perceptron_rects:
  "entity_rects (Perceptron perceptron1) =
     [mk_Rect 200 100 60 80, mk_Rect 242 103 15 15, mk_Rect 224 103 15 15, mk_Rect 260 134 12 12,
      mk_Rect 190 121 10 10, mk_Rect 190 148 10 10]"
  "entity_rects (Perceptron perceptron2) =
     [mk_Rect 400 200 60 80, mk_Rect 442 203 15 15, mk_Rect 424 203 15 15, mk_Rect 460 234 12 12,
      mk_Rect 390 235 10 10]"
  by (simp_all add: perceptron1_def perceptron2_def perceptron_of_def Perceptron_init_def
        perceptron_update_node_positions_def
        Let_def mk_Rect_def rect_right_def rect_centery_def node_rect_def set_topright_def
        output_node_radius_def input_node_radius_def button_margin_def button_size_def
        py_int_def upt2)

lemma scene0_fields:
  "all_objects scene0 = [Switch switch1, Switch switch2, Perceptron perceptron1,
                            Perceptron perceptron2, Light light1, Light light2]"
  "connections scene0 = []" "global_connection_state scene0 = reset_gstate"
  by (simp_all add: scene0_init(2))

lemma entity_input_rects_subset: "set (entity_input_rects e) \<subseteq> set (entity_rects e)"
  by (cases e) auto

lemma no_hit_scene0_origin: "no_input_port_hit (all_objects scene0) (0, 0)"
proof -
  have "\<forall>r\<in>set (entity_rects e). \<not> collidepoint r (0, 0)"
    if "e \<in> set (all_objects scene0)" for e
    using that
    by (auto simp: scene0_fields switch_rects light_rects perceptron_rects
          collidepoint_def mk_Rect_def simp del: entity_rects.simps)
  then show ?thesis
    unfolding no_input_port_hit_def using entity_input_rects_subset by blast
qed

lemma reachable_scene0: "reachable scene0"
  using scene0_init(1) by (rule reachable_init)

lemma run_events_reachable:
  "reachable s \<Longrightarrow> run_events evs s = Inr s' \<Longrightarrow> reachable s'"
proof (induction evs arbitrary: s)
  case Nil
  then show ?case by simp
next
  case (Cons ev evs)
  from Cons.prems(2) obtain s1 where 1: "process_event 0 ev s = Inr s1"
    and 2: "run_events evs s1 = Inr s'"
    by (auto split: sum.splits)
  from reachable_event[OF Cons.prems(1) 1] have "reachable s1" .
  from Cons.IH[OF this 2] show ?case .
qed

lemma misses_above:
  "(\<forall>k. j < k \<and> k < length xs \<longrightarrow> (\<forall>r\<in>set (entity_rects (xs ! k)). \<not> collidepoint r pt))
     \<longleftrightarrow> (\<forall>e\<in>set (drop (Suc j) xs). entity_misses e pt)"
proof
  assume a: "\<forall>k. j < k \<and> k < length xs \<longrightarrow> (\<forall>r\<in>set (entity_rects (xs ! k)). \<not> collidepoint r pt)"
  show "\<forall>e\<in>set (drop (Suc j) xs). entity_misses e pt"
  proof
    fix e assume "e \<in> set (drop (Suc j) xs)"
    then obtain m where "m < length xs - Suc j" "e = drop (Suc j) xs ! m"
      by (auto simp: in_set_conv_nth)
    then have e: "e = xs ! (Suc j + m)" and lt: "Suc j + m < length xs" by auto
    have "j < Suc j + m" by simp
    with a lt have "\<forall>r\<in>set (entity_rects (xs ! (Suc j + m))). \<not> collidepoint r pt"
      by blast
    with e show "entity_misses e pt" by (simp add: entity_misses_def)
  qed
next
  assume a: "\<forall>e\<in>set (drop (Suc j) xs). entity_misses e pt"
  show "\<forall>k. j < k \<and> k < length xs \<longrightarrow> (\<forall>r\<in>set (entity_rects (xs ! k)). \<not> collidepoint r pt)"
  proof (intro allI impI)
    fix k assume k: "j < k \<and> k < length xs"
    then have "xs ! k = drop (Suc j) xs ! (k - Suc j)" "k - Suc j < length (drop (Suc j) xs)"
      by auto
    then have "xs ! k \<in> set (drop (Suc j) xs)" by (metis nth_mem)
    with a show "\<forall>r\<in>set (entity_rects (xs ! k)). \<not> collidepoint r pt"
      by (auto simp: entity_misses_def)
  qed
qed

lemma switch_drag_start:
  assumes "j < length (all_objects s)" "all_objects s ! j = Switch sw"
    "\<not> collidepoint (switch.output_node_rect sw) pt" "\<not> collidepoint (toggle_rect sw) pt"
    "collidepoint (rect sw) pt"
    "\<forall>e\<in>set (drop (Suc j) (all_objects s)). entity_misses e pt"
  shows "process_event r (MOUSEBUTTONDOWN pt 1) s
           = Inr (s\<lparr>all_objects := (all_objects s)[j := Switch (start_drag pt sw)]\<rparr>)"
proof -
  have "entity_handle_event r j (MOUSEBUTTONDOWN pt 1) s
          = Inr (True, s\<lparr>all_objects := (all_objects s)[j := Switch (start_drag pt sw)]\<rparr>)"
    using assms(2-5)
    by (simp add: entity_handle_event_def Let_def switch_handle_event_def start_drag_def)
  from down_dispatch_hit[OF assms(1) _ this] assms(6) show ?thesis
    by (simp only: misses_above)
qed

lemma switch_start_connection:
  assumes "j < length (all_objects s)" "all_objects s ! j = Switch sw"
    "collidepoint (switch.output_node_rect sw) pt"
    "\<forall>e\<in>set (drop (Suc j) (all_objects s)). entity_misses e pt"
  shows "process_event r (MOUSEBUTTONDOWN pt 1) s
           = Inr (s\<lparr>global_connection_state :=
                      (global_connection_state s)\<lparr>is_drawing_connection := True,
                         connection_start_obj := Some j,
                         connection_start_pos := Some (switch.output_node_pos sw)\<rparr>\<rparr>)"
proof -
  have id: "(all_objects s)[j := Switch sw] = all_objects s"
    using assms(2) by (metis list_update_id)
  have "entity_handle_event r j (MOUSEBUTTONDOWN pt 1) s
          = Inr (True, s\<lparr>global_connection_state :=
                      (global_connection_state s)\<lparr>is_drawing_connection := True,
                         connection_start_obj := Some j,
                         connection_start_pos := Some (switch.output_node_pos sw)\<rparr>\<rparr>)"
    using assms(2,3)
    by (simp add: entity_handle_event_def Let_def switch_handle_event_def id)
  from down_dispatch_hit[OF assms(1) _ this] assms(4) show ?thesis
    by (simp only: misses_above)
qed

lemma scene0_misses:
  "entity_misses (Switch switch1) pt \<longleftrightarrow>
     \<not> collidepoint (mk_Rect 50 50 40 40) pt \<and> \<not> collidepoint (mk_Rect 58 58 24 24) pt \<and>
     \<not> collidepoint (mk_Rect 90 64 12 12) pt"
  "entity_misses (Switch switch2) pt \<longleftrightarrow>
     \<not> collidepoint (mk_Rect 50 150 40 40) pt \<and> \<not> collidepoint (mk_Rect 58 158 24 24) pt \<and>
     \<not> collidepoint (mk_Rect 90 164 12 12) pt"
  "entity_misses (Light light1) pt \<longleftrightarrow>
     \<not> collidepoint (mk_Rect 580 80 40 40) pt \<and> \<not> collidepoint (mk_Rect 570 95 10 10) pt"
  "entity_misses (Light light2) pt \<longleftrightarrow>
     \<not> collidepoint (mk_Rect 580 230 40 40) pt \<and> \<not> collidepoint (mk_Rect 570 245 10 10) pt"
  "entity_misses (Perceptron perceptron1) pt \<longleftrightarrow>
     \<not> collidepoint (mk_Rect 200 100 60 80) pt \<and> \<not> collidepoint (mk_Rect 242 103 15 15) pt \<and>
     \<not> collidepoint (mk_Rect 224 103 15 15) pt \<and> \<not> collidepoint (mk_Rect 260 134 12 12) pt \<and>
     \<not> collidepoint (mk_Rect 190 121 10 10) pt \<and> \<not> collidepoint (mk_Rect 190 148 10 10) pt"
  "entity_misses (Perceptron perceptron2) pt \<longleftrightarrow>
     \<not> collidepoint (mk_Rect 400 200 60 80) pt \<and> \<not> collidepoint (mk_Rect 442 203 15 15) pt \<and>
     \<not> collidepoint (mk_Rect 424 203 15 15) pt \<and> \<not> collidepoint (mk_Rect 460 234 12 12) pt \<and>
     \<not> collidepoint (mk_Rect 390 235 10 10) pt"
  by (simp_all add: entity_misses_def switch_rects light_rects perceptron_rects
        del: entity_rects.simps)

lemma collide_mk_Rect:
  "collidepoint (mk_Rect a b c d) (u, v) \<longleftrightarrow> a \<le> u \<and> u < a + c \<and> b \<le> v \<and> v < b + d"
  by (simp add: collidepoint_def mk_Rect_def)

lemma switch_fields:
  "rect switch1 = mk_Rect 50 50 40 40" "toggle_rect switch1 = mk_Rect 58 58 24 24"
  "switch.output_node_rect switch1 = mk_Rect 90 64 12 12"
  "rect switch2 = mk_Rect 50 150 40 40" "toggle_rect switch2 = mk_Rect 58 158 24 24"
  "switch.output_node_rect switch2 = mk_Rect 90 164 12 12"
  "is_dragging switch1 = False" "is_dragging switch2 = False"
  using switch_rects
  by (simp_all add: switch1_def switch2_def Switch_init_def switch_update_node_positions_def Let_def)

lemma initial_not_dragging:
  "is_dragging perceptron1 = False" "is_dragging perceptron2 = False"
  "is_dragging light1 = False" "is_dragging light2 = False"
  by (simp_all add: perceptron1_def perceptron2_def perceptron_of_def Perceptron_init_def
        perceptron_update_node_positions_def Let_def light1_def light2_def Light_init_def
        light_update_node_positions_def)

lemma two_drags_run:
  "run_events [MOUSEBUTTONDOWN (52, 52) 1, MOUSEBUTTONDOWN (52, 152) 1] scene0 = Inr two_drags"
proof -
  let ?s1 = "scene0\<lparr>all_objects := (all_objects scene0)[0 := Switch (start_drag (52, 52) switch1)]\<rparr>"
  have 1: "process_event 0 (MOUSEBUTTONDOWN (52, 52) 1) scene0 = Inr ?s1"
    by (rule switch_drag_start[where sw = switch1])
       (simp_all add: scene0_fields switch_fields scene0_misses collide_mk_Rect)
  have o1: "all_objects ?s1 = [Switch (start_drag (52, 52) switch1), Switch switch2,
       Perceptron perceptron1, Perceptron perceptron2, Light light1, Light light2]"
    by (simp add: scene0_fields)
  have 2: "process_event 0 (MOUSEBUTTONDOWN (52, 152) 1) ?s1
            = Inr (?s1\<lparr>all_objects := (all_objects ?s1)[Suc 0 := Switch (start_drag (52, 152) switch2)]\<rparr>)"
    by (rule switch_drag_start[where sw = switch2])
       (simp_all add: o1 switch_fields scene0_misses collide_mk_Rect)
  have "?s1\<lparr>all_objects := (all_objects ?s1)[Suc 0 := Switch (start_drag (52, 152) switch2)]\<rparr>
          = two_drags"
    by (simp add: two_drags_def scene0_fields)
  with 1 2 show ?thesis by simp
qed

lemma two_drags_count: "dragging_count two_drags = 2"
  by (simp add: dragging_count_def two_drags_def start_drag_def initial_not_dragging)

subsection \<open>Releasing a wire-draw\<close>

lemma scan_inputs_miss:
  "\<forall>r\<in>set (entity_input_rects obj). \<not> collidepoint r pt \<Longrightarrow> scan_inputs obj pt = None"
proof (cases obj)
  case (Switch s)
  then show ?thesis by simp
next
  case (Perceptron p)
  assume "\<forall>r\<in>set (entity_input_rects obj). \<not> collidepoint r pt"
  with Perceptron show ?thesis
    by (auto simp: find_None_iff rect_hit_def perceptron_get_input_node_rect_def)
next
  case (Light l)
  assume "\<forall>r\<in>set (entity_input_rects obj). \<not> collidepoint r pt"
  with Light show ?thesis
    by (auto simp: find_None_iff rect_hit_def light_get_input_node_rect_def
             split: option.splits if_splits)
qed

lemma find_target_from_miss:
  "no_input_port_hit objs pt \<Longrightarrow> find_target_from k objs pt = None"
  by (induction objs arbitrary: k) (simp_all add: no_input_port_hit_def scan_inputs_miss)

lemma finalize_connection_resets:
  "finalize_connection pt s = Inr s' \<Longrightarrow> global_connection_state s' = reset_gstate"
  by (auto simp: finalize_connection_def split: option.splits)

lemma finalize_connection_total:
  "connection_start_obj (global_connection_state s) \<noteq> None \<Longrightarrow>
   \<exists>s'. finalize_connection pt s = Inr s'"
  by (auto simp: finalize_connection_def split: option.splits)

text \<open>
  Claim C7. When a pointer-up arrives while a wire-draw is in progress and the release
  position lies in no object's input-port hit-region, the event succeeds and leaves the
  registry, the objects and hence every input slot unchanged. Whenever the wire-draw has
  a start object the event succeeds, and in every case in which it succeeds the transient
  state afterwards is not drawing, with no start object and no start point.
\<close>

theorem wire_draw_release_resets:
  assumes drawing: "is_drawing_connection (global_connection_state s)"
  shows "(no_input_port_hit (all_objects s) pt \<longrightarrow>
            (\<exists>s'. process_event r (MOUSEBUTTONUP pt b) s = Inr s' \<and>
                  connections s' = connections s \<and> all_objects s' = all_objects s \<and>
                  map entity_slots (all_objects s') = map entity_slots (all_objects s))) \<and>
         (connection_start_obj (global_connection_state s) \<noteq> None \<longrightarrow>
            (\<exists>s'. process_event r (MOUSEBUTTONUP pt b) s = Inr s')) \<and>
         (\<forall>s'. process_event r (MOUSEBUTTONUP pt b) s = Inr s' \<longrightarrow>
            is_drawing_connection (global_connection_state s') = False \<and>
            connection_start_obj (global_connection_state s') = None \<and>
            connection_start_pos (global_connection_state s') = None)"
proof -
  have pe: "process_event r (MOUSEBUTTONUP pt b) s = finalize_connection pt s"
    using drawing by (simp add: process_event_def)
  have "no_input_port_hit (all_objects s) pt \<longrightarrow>
          finalize_connection pt s = Inr (s\<lparr>global_connection_state := reset_gstate\<rparr>)"
    by (simp add: finalize_connection_def find_target_def find_target_from_miss)
  moreover have "connection_start_obj (global_connection_state s) \<noteq> None \<longrightarrow>
            (\<exists>s'. finalize_connection pt s = Inr s')"
    using finalize_connection_total by blast
  moreover have "\<forall>s'. finalize_connection pt s = Inr s' \<longrightarrow>
            is_drawing_connection (global_connection_state s') = False \<and>
            connection_start_obj (global_connection_state s') = None \<and>
            connection_start_pos (global_connection_state s') = None"
    by (auto dest!: finalize_connection_resets simp: reset_gstate_def)
  ultimately show ?thesis unfolding pe by auto
qed

theorem wire_draw_release_resets_witness:
  "is_drawing_connection (global_connection_state (drawing_from 0 scene0)) \<and>
   no_input_port_hit (all_objects (drawing_from 0 scene0)) (0, 0) \<and>
   (\<exists>s'. process_event 0 (MOUSEBUTTONUP (0, 0) 1) (drawing_from 0 scene0) = Inr s' \<and>
         connections s' = [] \<and> all_objects s' = all_objects scene0 \<and>
         is_drawing_connection (global_connection_state s') = False \<and>
         connection_start_obj (global_connection_state s') = None)"
proof -
  have d: "is_drawing_connection (global_connection_state (drawing_from 0 scene0))"
    by (simp add: drawing_from_def)
  have o: "all_objects (drawing_from 0 scene0) = all_objects scene0"
          "connections (drawing_from 0 scene0) = []"
    by (simp_all add: drawing_from_def scene0_fields)
  have n: "no_input_port_hit (all_objects (drawing_from 0 scene0)) (0, 0)"
    by (simp only: o no_hit_scene0_origin)
  from wire_draw_release_resets [OF d, of "(0, 0)" 0 1] n
  obtain s' where s': "process_event 0 (MOUSEBUTTONUP (0, 0) 1) (drawing_from 0 scene0) = Inr s'"
      "connections s' = connections (drawing_from 0 scene0)"
      "all_objects s' = all_objects (drawing_from 0 scene0)"
    by blast
  from wire_draw_release_resets [OF d, of "(0, 0)" 0 1] s'(1)
  have "is_drawing_connection (global_connection_state s') = False \<and>
        connection_start_obj (global_connection_state s') = None"
    by blast
  with d n s' o show ?thesis by auto
qed

subsection \<open>Dragging flags and the wire-draw state\<close>

text \<open>
  Claim C6, amended. In every reachable state a wire-draw is in progress exactly when the
  single transient state holds a start object, so at most one wire-draw exists at a time;
  and one pointer event changes the dragging flag of at most one object. The dragging
  flags themselves are independent per object.
\<close>

theorem one_flag_per_event:
  assumes "reachable s"
  shows "(is_drawing_connection (global_connection_state s)
            \<longleftrightarrow> connection_start_obj (global_connection_state s) \<noteq> None) \<and>
         (\<forall>r ev s'. process_event r ev s = Inr s' \<longrightarrow>
            length (all_objects s') = length (all_objects s) \<and>
            (\<exists>j. \<forall>m<length (all_objects s). m \<noteq> j \<longrightarrow>
               entity_dragging (all_objects s' ! m) = entity_dragging (all_objects s ! m)))"
proof -
  from reachable_scene_inv[OF assms] have inv: "scene_inv s" .
  then have "gstate_inv (global_connection_state s)" by (simp add: scene_inv_def)
  then have 1: "is_drawing_connection (global_connection_state s)
            \<longleftrightarrow> connection_start_obj (global_connection_state s) \<noteq> None"
    by (simp add: gstate_inv_def)
  have 2: "length (all_objects s') = length (all_objects s) \<and>
            (\<exists>j. \<forall>m<length (all_objects s). m \<noteq> j \<longrightarrow>
               entity_dragging (all_objects s' ! m) = entity_dragging (all_objects s ! m))"
    if "process_event r ev s = Inr s'" for r ev s'
    using process_event_inv[OF that inv] by simp
  from 1 2 show ?thesis by blast
qed

theorem one_flag_per_event_witness:
  "reachable scene0 \<and>
   \<not> is_drawing_connection (global_connection_state scene0) \<and>
   (\<exists>s'. process_event 0 (MOUSEBUTTONDOWN (52, 52) 1) scene0 = Inr s' \<and>
      length (all_objects s') = length (all_objects scene0) \<and>
      (\<exists>j. \<forall>m<length (all_objects scene0). m \<noteq> j \<longrightarrow>
         entity_dragging (all_objects s' ! m) = entity_dragging (all_objects scene0 ! m)))"
proof -
  let ?s1 = "scene0\<lparr>all_objects := (all_objects scene0)[0 := Switch (start_drag (52, 52) switch1)]\<rparr>"
  have 1: "process_event 0 (MOUSEBUTTONDOWN (52, 52) 1) scene0 = Inr ?s1"
    by (rule switch_drag_start[where sw = switch1])
       (simp_all add: scene0_fields switch_fields scene0_misses collide_mk_Rect)
  have g: "\<not> is_drawing_connection (global_connection_state scene0)"
    by (simp add: scene0_fields reset_gstate_def)
  from one_flag_per_event [OF reachable_scene0] 1
  have "length (all_objects ?s1) = length (all_objects scene0) \<and>
      (\<exists>j. \<forall>m<length (all_objects scene0). m \<noteq> j \<longrightarrow>
         entity_dragging (all_objects ?s1 ! m) = entity_dragging (all_objects scene0 ! m))"
    by blast
  with 1 g reachable_scene0 show ?thesis by blast
qed

text \<open>
  Two left-button presses, on the bodies of the two switches, with no release in between
  leave both switches dragging: the claim that at most one object is dragging in every
  reachable state does not hold as stated.
\<close>

theorem two_entities_dragging_counterexample:
  "\<not> (\<forall>s. reachable s \<longrightarrow> dragging_count s \<le> 1)"
proof
  assume a: "\<forall>s. reachable s \<longrightarrow> dragging_count s \<le> 1"
  from run_events_reachable[OF reachable_scene0 two_drags_run] a
  have "dragging_count two_drags \<le> 1" by blast
  then show False by (simp add: two_drags_count)
qed

subsection \<open>The registry invariant\<close>

lemma existing_conn_idx_found:
  "\<exists>c\<in>set conns. conn_matches t i c \<Longrightarrow> \<exists>k. existing_conn_idx t i conns = Some k"
  using existing_conn_idx_None[of t i conns] by (cases "existing_conn_idx t i conns") auto

text \<open>
  Claim C1. In every state reachable from the initial scene, no two distinct registry
  entries have the same target object and input index. Completing a wire-draw onto an
  input port whose slot already holds a source succeeds, overwrites the source of the
  existing entry for that port in place, leaves the size of the registry unchanged, and
  stores the new source in the slot.
\<close>

theorem registry_targets_unique:
  assumes "reachable s"
  shows "(\<forall>a<length (connections s). \<forall>b<length (connections s). a \<noteq> b \<longrightarrow>
            conn_target (connections s ! a) \<noteq> conn_target (connections s ! b)) \<and>
         (\<forall>r pt b t i.
            is_drawing_connection (global_connection_state s) \<and>
            find_target (all_objects s) pt = Some (t, i) \<and>
            i < length (entity_slots (all_objects s ! t)) \<and>
            entity_slots (all_objects s ! t) ! i \<noteq> None \<longrightarrow>
            (\<exists>s' k src.
               process_event r (MOUSEBUTTONUP pt b) s = Inr s' \<and>
               connection_start_obj (global_connection_state s) = Some src \<and>
               k < length (connections s) \<and> conn_target (connections s ! k) = (t, i) \<and>
               connections s' = (connections s)[k := (connections s ! k)\<lparr>source_obj := src\<rparr>] \<and>
               length (connections s') = length (connections s) \<and>
               entity_slots (all_objects s' ! t) ! i = Some src))"
proof -
  from reachable_scene_inv[OF assms] have inv: "scene_inv s" .
  let ?g = "global_connection_state s" and ?conns = "connections s" and ?objs = "all_objects s"
  from inv have "distinct (map conn_target ?conns)"
    by (simp add: scene_inv_def unique_targets_def)
  then have 1: "\<forall>a<length ?conns. \<forall>b<length ?conns. a \<noteq> b \<longrightarrow>
            conn_target (?conns ! a) \<noteq> conn_target (?conns ! b)"
    by (auto simp: distinct_conv_nth)
  have 2: "\<exists>s' k src.
               process_event r (MOUSEBUTTONUP pt b) s = Inr s' \<and>
               connection_start_obj ?g = Some src \<and>
               k < length ?conns \<and> conn_target (?conns ! k) = (t, i) \<and>
               connections s' = ?conns[k := (?conns ! k)\<lparr>source_obj := src\<rparr>] \<and>
               length (connections s') = length ?conns \<and>
               entity_slots (all_objects s' ! t) ! i = Some src"
    if h: "is_drawing_connection ?g" "find_target ?objs pt = Some (t, i)"
          "i < length (entity_slots (?objs ! t))" "entity_slots (?objs ! t) ! i \<noteq> None"
    for r pt b t i
  proof -
    from inv h(1) obtain src where src: "connection_start_obj ?g = Some src"
      by (auto simp: scene_inv_def gstate_inv_def)
    from find_target_Some[OF h(2)] have t: "t < length ?objs" by simp
    with inv h(3,4) have "\<exists>c\<in>set ?conns. conn_matches t i c"
      by (simp add: scene_inv_def slots_registered_def)
    from existing_conn_idx_found[OF this] obtain k where k: "existing_conn_idx t i ?conns = Some k"
      by blast
    from existing_conn_idx_Some[OF k] have kl: "k < length ?conns"
      and km: "conn_target (?conns ! k) = (t, i)" by (simp_all add: conn_matches_target)
    let ?s' = "s\<lparr>all_objects := ?objs[t := connect_input (?objs ! t) i src],
                  connections := ?conns[k := (?conns ! k)\<lparr>source_obj := src\<rparr>],
                  global_connection_state := reset_gstate\<rparr>"
    have pe: "process_event r (MOUSEBUTTONUP pt b) s = Inr ?s'"
      using h(1,2) src k
      by (simp add: process_event_def finalize_connection_def add_or_update_connection_def)
    have "entity_slots (all_objects ?s' ! t) ! i = Some src"
      using t h(3) by (simp add: connect_input_props)
    with pe src kl km show ?thesis by (intro exI[of _ ?s'] exI[of _ k] exI[of _ src]) simp
  qed
  from 1 2 show ?thesis by blast
qed

lemma perceptron1_fields:
  "perceptron.num_inputs perceptron1 = 2"
  "perceptron.input_connections perceptron1 = [None, None]"
  "perceptron.input_node_rects perceptron1 = [mk_Rect 190 121 10 10, mk_Rect 190 148 10 10]"
  by (simp_all add: perceptron1_def perceptron_of_def Perceptron_init_def
        perceptron_update_node_positions_def
        Let_def mk_Rect_def node_rect_def input_node_radius_def py_int_def upt2
        numeral_2_eq_2)

lemma switch_output_pos:
  "switch.output_node_pos switch1 = (96, 70)" "switch.output_node_pos switch2 = (96, 170)"
  by (simp_all add: switch1_def switch2_def Switch_init_def switch_update_node_positions_def
        Let_def mk_Rect_def rect_right_def rect_centery_def output_node_radius_def)

lemma scan_perceptron1:
  assumes "perceptron.num_inputs p = 2"
    "perceptron.input_node_rects p = [mk_Rect 190 121 10 10, mk_Rect 190 148 10 10]"
  shows "scan_inputs (Perceptron p) (195, 126) = Some 0"
  using assms
  by (simp add: upt2 perceptron_get_input_node_rect_def rect_hit_def rect_truthy_def
        collide_mk_Rect) (simp add: mk_Rect_def)

lemma wired_run:
  "run_events [MOUSEBUTTONDOWN (96, 70) 1, MOUSEBUTTONUP (195, 126) 1,
               MOUSEBUTTONDOWN (96, 170) 1] scene0 = Inr wired"
proof -
  let ?g1 = "(global_connection_state scene0)\<lparr>is_drawing_connection := True,
                         connection_start_obj := Some 0,
                         connection_start_pos := Some (switch.output_node_pos switch1)\<rparr>"
  let ?s1 = "scene0\<lparr>global_connection_state := ?g1\<rparr>"
  have 1: "process_event 0 (MOUSEBUTTONDOWN (96, 70) 1) scene0 = Inr ?s1"
    by (rule switch_start_connection[where sw = switch1])
       (simp_all add: scene0_fields switch_fields scene0_misses collide_mk_Rect)
  let ?p = "perceptron1\<lparr>perceptron.input_connections := [Some 0, None]\<rparr>"
  let ?objs2 = "[Switch switch1, Switch switch2, Perceptron ?p,
                Perceptron perceptron2, Light light1, Light light2]"
  let ?s2 = "scene0\<lparr>all_objects := ?objs2,
               connections := [\<lparr>source_obj = 0, target_obj = 2, target_input_idx = 0\<rparr>]\<rparr>"
  have ft: "find_target (all_objects scene0) (195, 126) = Some (Suc (Suc 0), 0)"
    using scan_perceptron1[OF perceptron1_fields(1,3)]
    by (simp add: find_target_def scene0_fields del: scan_inputs.simps) simp
  have 2: "process_event 0 (MOUSEBUTTONUP (195, 126) 1) ?s1 = Inr ?s2"
    using ft
    by (simp add: process_event_def finalize_connection_def scene0_fields
          add_or_update_connection_def perceptron1_fields reset_gstate_def)
  let ?g3 = "(global_connection_state ?s2)\<lparr>is_drawing_connection := True,
                         connection_start_obj := Some (Suc 0),
                         connection_start_pos := Some (switch.output_node_pos switch2)\<rparr>"
  have m: "entity_misses (Perceptron ?p) pt = entity_misses (Perceptron perceptron1) pt" for pt
    by (simp add: entity_misses_def)
  have 3: "process_event 0 (MOUSEBUTTONDOWN (96, 170) 1) ?s2
             = Inr (?s2\<lparr>global_connection_state := ?g3\<rparr>)"
    by (rule switch_start_connection[where sw = switch2])
       (simp_all add: switch_fields m scene0_misses collide_mk_Rect)
  have "?s2\<lparr>global_connection_state := ?g3\<rparr> = wired"
    by (simp add: wired_def scene0_init(2) reset_gstate_def switch_output_pos)
  with 1 2 3 show ?thesis by simp
qed

theorem registry_targets_unique_witness:
  "reachable wired \<and> is_drawing_connection (global_connection_state wired) \<and>
   find_target (all_objects wired) (195, 126) = Some (2, 0) \<and>
   entity_slots (all_objects wired ! 2) ! 0 = Some 0 \<and>
   connections wired = [\<lparr>source_obj = 0, target_obj = 2, target_input_idx = 0\<rparr>] \<and>
   (\<exists>s'. process_event 0 (MOUSEBUTTONUP (195, 126) 1) wired = Inr s' \<and>
      connections s' = [\<lparr>source_obj = 1, target_obj = 2, target_input_idx = 0\<rparr>])"
proof -
  have r: "reachable wired"
    using run_events_reachable[OF reachable_scene0 wired_run] .
  have d: "is_drawing_connection (global_connection_state wired)"
    and src: "connection_start_obj (global_connection_state wired) = Some 1"
    and c: "connections wired = [\<lparr>source_obj = 0, target_obj = 2, target_input_idx = 0\<rparr>]"
    by (simp_all add: wired_def)
  have ft: "find_target (all_objects wired) (195, 126) = Some (2, 0)"
    using scan_perceptron1[of "perceptron1\<lparr>perceptron.input_connections := [Some 0, None]\<rparr>"]
    by (simp add: find_target_def wired_def perceptron1_fields numeral_2_eq_2
          del: scan_inputs.simps) simp
  have sl: "0 < length (entity_slots (all_objects wired ! 2))"
           "entity_slots (all_objects wired ! 2) ! 0 = Some 0"
    by (simp_all add: wired_def numeral_2_eq_2)
  from registry_targets_unique [OF r] d ft sl
  obtain s' k s0 where
    h: "process_event 0 (MOUSEBUTTONUP (195, 126) 1) wired = Inr s'"
       "connection_start_obj (global_connection_state wired) = Some s0"
       "k < length (connections wired)"
       "connections s' = (connections wired)[k := (connections wired ! k)\<lparr>source_obj := s0\<rparr>]"
    by (metis option.distinct(1))
  from h(2) src have "s0 = 1" by simp
  moreover from h(3) c have "k = 0" by simp
  ultimately have "connections s' = [\<lparr>source_obj = 1, target_obj = 2, target_input_idx = 0\<rparr>]"
    using h(4) c by simp
  with r d ft sl c h(1) show ?thesis by blast
qed

end
